theory Spec2Isabelle
  imports
    Main
    "HOL-Library.AList"
    "HOL-Library.Char_ord"
    "HOL-Library.List_Lexorder"
    "HOL-Library.Multiset"
    "HOL-Library.Sublist"
begin

section \<open>Python values used by the hooks\<close>

text \<open>
  Python strings are modelled as \<^typ>\<open>string\<close>: one \<^typ>\<open>char\<close> per code point, which
  covers the code points below 256. Their order (\<open><\<close>, \<open>\<le>\<close>) is Python's: lexicographic
  by code point, a proper prefix being smaller.

  A value read with \<open>dict.get(key)\<close> is a \<^typ>\<open>string option\<close>, \<open>None\<close> when the key is
  absent. \<open>truthy\<close> is Python's truth test on such a value: absent and empty are false.
\<close>

definition truthy :: "string option \<Rightarrow> bool" where
  "truthy v = (case v of None \<Rightarrow> False | Some s \<Rightarrow> s \<noteq> [])"

text \<open>\<open>d.get(key, default)\<close> on a string-valued field.\<close>

definition get_or :: "string option \<Rightarrow> string \<Rightarrow> string" where
  "get_or v dflt = (case v of None \<Rightarrow> dflt | Some s \<Rightarrow> s)"

text \<open>
  \<open>str.isspace\<close> on one code point below 256, and \<open>str.strip()\<close>, which removes the
  whitespace at both ends.
\<close>

definition isspace :: "char \<Rightarrow> bool" where
  "isspace c = (of_char c \<in> {9, 10, 11, 12, 13, 28, 29, 30, 31, 32, 133, 160 :: nat})"

definition strip :: "string \<Rightarrow> string" where
  "strip s = rev (dropWhile isspace (rev (dropWhile isspace s)))"

datatype error = AttributeError | TypeError | KeyError

section \<open>slack_common: the conversation/thread store\<close>

text \<open>
  The document \<open>threads.json\<close> maps a conversation id to its entry. An entry is an object
  with string fields (\<open>thread_ts\<close>, \<open>file_id\<close>), or, in the legacy format, the bare
  \<open>thread_ts\<close> string. A Python dict keeps its keys in insertion order, which the linear
  scan and the stable sort below depend on, so a dict is an association list; assignment
  \<open>d[k] = v\<close> is \<^const>\<open>AList.update\<close> (in place for a known key, appended for a new one)
  and \<open>del d[k]\<close> is \<^const>\<open>AList.delete\<close>.
\<close>

datatype val = VStr string | VDict "(string \<times> string) list"

type_synonym state = "(string \<times> val) list"

text \<open>
  \<open>_load_state\<close>. The argument is the parsed document, \<open>None\<close> when the file cannot be
  read or parsed or does not hold an object: every exception there returns \<open>{}\<close>.
\<close>

definition migrate :: "val \<Rightarrow> val" where
  "migrate v = (case v of VStr s \<Rightarrow> VDict [(''thread_ts'', s)] | VDict d \<Rightarrow> v)"

definition load_state :: "state option \<Rightarrow> state" where
  "load_state file =
     (case file of
        None \<Rightarrow> []
      | Some data \<Rightarrow> foldl (\<lambda>migrated (k, v). AList.update k (migrate v) migrated) [] data)"

text \<open>
  \<open>sorted(xs, key=kf)\<close>: the keys are computed first, one per element and in order (the
  first key that raises ends the call), then the elements are sorted by key, stably.
\<close>

fun decorate :: "('a \<Rightarrow> error + 'k) \<Rightarrow> 'a list \<Rightarrow> error + ('k \<times> 'a) list" where
  "decorate kf [] = Inr []"
| "decorate kf (x # xs) =
     (case kf x of
        Inl e \<Rightarrow> Inl e
      | Inr k \<Rightarrow> (case decorate kf xs of Inl e \<Rightarrow> Inl e | Inr r \<Rightarrow> Inr ((k, x) # r)))"

definition sorted_by :: "('a \<Rightarrow> error + 'k::linorder) \<Rightarrow> 'a list \<Rightarrow> error + 'a list" where
  "sorted_by kf xs =
     (case decorate kf xs of Inl e \<Rightarrow> Inl e | Inr kxs \<Rightarrow> Inr (map snd (sort_key fst kxs)))"

text \<open>The sort key of \<open>_save_state\<close>: \<open>state[k].get("thread_ts", "")\<close>.\<close>

definition retention_key :: "state \<Rightarrow> string \<Rightarrow> error + string" where
  "retention_key state k =
     (case map_of state k of
        None \<Rightarrow> Inl KeyError
      | Some (VStr s) \<Rightarrow> Inl AttributeError
      | Some (VDict d) \<Rightarrow> Inr (get_or (map_of d ''thread_ts'') []))"

text \<open>
  \<open>_save_state\<close>. The result is the document written to the file (the state after the
  eviction), or the exception raised before anything is written. \<open>keys[:-100]\<close> is all but
  the last 100 keys.
\<close>

definition save_state :: "state \<Rightarrow> error + state" where
  "save_state state =
     (if length state > 100 then
        (case sorted_by (retention_key state) (map fst state) of
           Inl e \<Rightarrow> Inl e
         | Inr keys \<Rightarrow>
             Inr (foldl (\<lambda>st k. AList.delete k st) state (take (length keys - 100) keys)))
      else Inr state)"

text \<open>\<open>get_thread_ts\<close> and \<open>get_transcript_file_id\<close>: \<open>_load_state().get(cid, {}).get(field)\<close>.\<close>

definition get_field :: "string \<Rightarrow> string \<Rightarrow> state option \<Rightarrow> error + string option" where
  "get_field field conversation_id file =
     (case map_of (load_state file) conversation_id of
        None \<Rightarrow> Inr None
      | Some (VDict d) \<Rightarrow> Inr (map_of d field)
      | Some (VStr s) \<Rightarrow> Inl AttributeError)"

definition get_thread_ts :: "string \<Rightarrow> state option \<Rightarrow> error + string option" where
  "get_thread_ts conversation_id file = get_field ''thread_ts'' conversation_id file"

definition get_transcript_file_id :: "string \<Rightarrow> state option \<Rightarrow> error + string option" where
  "get_transcript_file_id conversation_id file = get_field ''file_id'' conversation_id file"

text \<open>
  \<open>save_thread_ts\<close> and \<open>save_transcript_file_id\<close>: load, create the entry when the
  conversation is new, set the field (\<open>put_field\<close>: the state handed to \<open>_save_state\<close>),
  save. Item assignment on a bare string raises \<open>TypeError\<close>.
\<close>

definition put_field :: "string \<Rightarrow> string \<Rightarrow> string \<Rightarrow> state option \<Rightarrow> error + state" where
  "put_field field conversation_id x file =
     (let state = load_state file;
          state = (if map_of state conversation_id = None
                   then AList.update conversation_id (VDict []) state else state)
      in case map_of state conversation_id of
           Some (VDict d) \<Rightarrow>
             Inr (AList.update conversation_id (VDict (AList.update field x d)) state)
         | Some (VStr s) \<Rightarrow> Inl TypeError
         | None \<Rightarrow> Inl KeyError)"

definition set_field :: "string \<Rightarrow> string \<Rightarrow> string \<Rightarrow> state option \<Rightarrow> error + state" where
  "set_field field conversation_id x file =
     (case put_field field conversation_id x file of
        Inl e \<Rightarrow> Inl e
      | Inr state \<Rightarrow> save_state state)"

definition save_thread_ts :: "string \<Rightarrow> string \<Rightarrow> state option \<Rightarrow> error + state" where
  "save_thread_ts conversation_id ts file = set_field ''thread_ts'' conversation_id ts file"

definition save_transcript_file_id :: "string \<Rightarrow> string \<Rightarrow> state option \<Rightarrow> error + state" where
  "save_transcript_file_id conversation_id file_id file =
     set_field ''file_id'' conversation_id file_id file"

text \<open>
  Storing a sequence of links, one \<open>save_thread_ts\<close> call after the other, each reading the
  document the previous one wrote.
\<close>

fun store_links :: "(string \<times> string) list \<Rightarrow> state option \<Rightarrow> error + state option" where
  "store_links [] file = Inr file"
| "store_links ((conversation_id, ts) # links) file =
     (case save_thread_ts conversation_id ts file of
        Inl e \<Rightarrow> Inl e
      | Inr written \<Rightarrow> store_links links (Some written))"

text \<open>
  \<open>get_most_recent_thread\<close>. The loop keeps \<open>(latest_cid, latest_ts)\<close>, starting from
  \<open>(None, "0")\<close>; an entry replaces them only when its \<open>thread_ts\<close> is strictly greater. The
  result \<open>(None, None)\<close> is \<open>None\<close> here.
\<close>

definition entry_ts :: "val \<Rightarrow> string" where
  "entry_ts entry = (case entry of VDict d \<Rightarrow> get_or (map_of d ''thread_ts'') ''0'' | VStr s \<Rightarrow> s)"

fun scan_latest :: "state \<Rightarrow> string option \<times> string \<Rightarrow> string option \<times> string" where
  "scan_latest [] acc = acc"
| "scan_latest ((cid, entry) # rest) (latest_cid, latest_ts) =
     (if entry_ts entry > latest_ts
      then scan_latest rest (Some cid, entry_ts entry)
      else scan_latest rest (latest_cid, latest_ts))"

definition get_most_recent_thread :: "state option \<Rightarrow> (string \<times> string) option" where
  "get_most_recent_thread file =
     (let state = load_state file in
      if state = [] then None
      else (case scan_latest state (None, ''0'') of
              (latest_cid, latest_ts) \<Rightarrow>
                if truthy latest_cid then Some (get_or latest_cid [], latest_ts) else None))"

text \<open>
  The Slack Web API is outside the program: a call returns the parsed response, which
  says \<open>ok\<close> or not, or raises.
\<close>

datatype 'a api = ApiOk 'a | ApiNotOk string | ApiRaised string

text \<open>\<open>get_bot_user_id\<close>: the \<open>user_id\<close> of an \<open>ok\<close> response of \<open>auth.test\<close>, else \<open>None\<close>.\<close>

definition get_bot_user_id :: "string option api \<Rightarrow> string option" where
  "get_bot_user_id auth_test =
     (case auth_test of ApiOk user_id \<Rightarrow> user_id | ApiNotOk e \<Rightarrow> None | ApiRaised e \<Rightarrow> None)"

text \<open>A message of \<open>conversations.replies\<close>, with the four fields the listener reads.\<close>

record msg =
  msg_ts :: "string option"
  msg_bot_id :: "string option"
  msg_user :: "string option"
  msg_text :: "string option"

text \<open>
  \<open>get_thread_replies\<close>: \<open>oldest\<close> is sent only when it is truthy; the messages of an \<open>ok\<close>
  response (\<open>[]\<close> when the response has none), else \<open>[]\<close>.
\<close>

type_synonym remote = "string \<Rightarrow> string option \<Rightarrow> msg list option api"

definition get_thread_replies :: "remote \<Rightarrow> string \<Rightarrow> string option \<Rightarrow> msg list" where
  "get_thread_replies api_replies thread_ts oldest =
     (case api_replies thread_ts (if truthy oldest then oldest else None) of
        ApiOk messages \<Rightarrow> (case messages of None \<Rightarrow> [] | Some ms \<Rightarrow> ms)
      | ApiNotOk e \<Rightarrow> []
      | ApiRaised e \<Rightarrow> [])"

section \<open>slack_listener: the reply poller\<close>

text \<open>
  The listener state, a dict again, maps a thread's root \<open>ts\<close> to the \<open>ts\<close> of the last
  message seen in that thread. \<open>_load_listener_state\<close> returns \<open>{}\<close> when the file cannot be read;
  \<open>_save_listener_state\<close> writes the whole state.
\<close>

type_synonym listener_state = "(string \<times> string) list"

definition load_listener_state :: "listener_state option \<Rightarrow> listener_state" where
  "load_listener_state file = (case file of None \<Rightarrow> [] | Some st \<Rightarrow> st)"

definition save_listener_state :: "listener_state \<Rightarrow> listener_state option" where
  "save_listener_state st = Some st"

subsection \<open>inject_message\<close>

text \<open>
  The AppleScript run by \<open>osascript\<close>: the message with backslashes, then double quotes,
  escaped, between the fixed lines.
\<close>

definition dquote :: char where "dquote = CHR 0x22"
definition backslash :: char where "backslash = CHR 0x5C"
definition newline :: char where "newline = CHR 0x0A"

definition replace_char :: "char \<Rightarrow> string \<Rightarrow> string \<Rightarrow> string" where
  "replace_char c r s = concat (map (\<lambda>x. if x = c then r else [x]) s)"

definition applescript :: "string \<Rightarrow> string \<Rightarrow> string" where
  "applescript message shortcut_key =
     (let escaped = replace_char dquote [backslash, dquote]
                      (replace_char backslash [backslash, backslash] message)
      in ''set the clipboard to '' @ [dquote] @ escaped @ [dquote, newline]
         @ ''tell application '' @ [dquote] @ ''Cursor'' @ [dquote] @ '' to activate'' @ [newline]
         @ ''delay 0.5'' @ [newline]
         @ ''tell application '' @ [dquote] @ ''System Events'' @ [dquote, newline]
         @ ''    keystroke '' @ [dquote] @ shortcut_key @ [dquote]
         @ '' using command down'' @ [newline]
         @ ''    delay 0.3'' @ [newline]
         @ ''    keystroke '' @ [dquote] @ ''v'' @ [dquote] @ '' using command down'' @ [newline]
         @ ''    delay 0.1'' @ [newline]
         @ ''    key code 36'' @ [newline]
         @ ''end tell'' @ [newline])"

text \<open>
  \<open>subprocess.run(["osascript", "-e", script], timeout=10, check=True)\<close> is outside the
  program: it completes, or raises \<open>TimeoutExpired\<close>, \<open>CalledProcessError\<close> (with the
  script's stderr) or another exception. \<open>inject_message\<close> catches each of them and writes
  one line to the log; it returns normally in every case, so its result is that log line.
\<close>

datatype subprocess_error = TimeoutExpired | CalledProcessError string | OtherException string

datatype log_entry =
  Log_injected nat | Log_timed_out | Log_failed string | Log_error string

definition inject_message ::
  "(string \<Rightarrow> subprocess_error + unit) \<Rightarrow> string \<Rightarrow> string \<Rightarrow> log_entry" where
  "inject_message run_osascript message shortcut_key =
     (case run_osascript (applescript message shortcut_key) of
        Inr u \<Rightarrow> Log_injected (length message)
      | Inl TimeoutExpired \<Rightarrow> Log_timed_out
      | Inl (CalledProcessError stderr) \<Rightarrow> Log_failed stderr
      | Inl (OtherException e) \<Rightarrow> Log_error e)"

subsection \<open>The polling loop\<close>

text \<open>
  One call of \<open>inject_message\<close>, as the trace records it: the thread polled, the message
  it was called for, the text passed and the log line that came back.
\<close>

datatype event =
  Injection (ev_thread: string) (ev_msg: msg) (ev_text: string) (ev_log: log_entry)

text \<open>
  The body of \<open>for msg in replies\<close>. \<open>last_seen\<close> is the value read before the loop; the
  body never changes it.
\<close>

definition process_msg ::
  "string option \<Rightarrow> (string \<Rightarrow> subprocess_error + unit) \<Rightarrow> string \<Rightarrow> string \<Rightarrow> string \<Rightarrow>
   msg \<Rightarrow> listener_state \<times> event list \<Rightarrow> listener_state \<times> event list" where
  "process_msg bot_user_id run_osascript shortcut_key thread_ts last_seen m acc =
     (case acc of (listener_state, evs) \<Rightarrow>
        let ts = get_or (msg_ts m) [] in
        if ts \<le> last_seen then (listener_state, evs)
        else if ts = thread_ts then (listener_state, evs)
        else if truthy (msg_bot_id m) then (AList.update thread_ts ts listener_state, evs)
        else if truthy bot_user_id \<and> msg_user m = bot_user_id
          then (AList.update thread_ts ts listener_state, evs)
        else
          let txt = strip (get_or (msg_text m) []) in
          if txt = [] then (AList.update thread_ts ts listener_state, evs)
          else (AList.update thread_ts ts listener_state,
                evs @ [Injection thread_ts m txt (inject_message run_osascript txt shortcut_key)]))"

fun process_replies ::
  "string option \<Rightarrow> (string \<Rightarrow> subprocess_error + unit) \<Rightarrow> string \<Rightarrow> string \<Rightarrow> string \<Rightarrow>
   msg list \<Rightarrow> listener_state \<times> event list \<Rightarrow> listener_state \<times> event list" where
  "process_replies bot_user_id run_osascript shortcut_key thread_ts last_seen [] acc = acc"
| "process_replies bot_user_id run_osascript shortcut_key thread_ts last_seen (m # ms) acc =
     process_replies bot_user_id run_osascript shortcut_key thread_ts last_seen ms
       (process_msg bot_user_id run_osascript shortcut_key thread_ts last_seen m acc)"

text \<open>
  What one iteration of \<open>while running\<close> reads from outside: the thread store, the remote
  service and the outcome of \<open>osascript\<close> on a script.
\<close>

record world =
  w_threads :: "state option"
  w_replies :: remote
  w_osascript :: "string \<Rightarrow> subprocess_error + unit"

text \<open>The daemon's listener state in memory and the document last written to its file.\<close>

record daemon =
  listener_state :: listener_state
  listener_file :: "listener_state option"

text \<open>\<open>listener_state.get(thread_ts, thread_ts)\<close>.\<close>

definition last_seen_of :: "listener_state \<Rightarrow> string \<Rightarrow> string" where
  "last_seen_of st thread_ts = get_or (map_of st thread_ts) thread_ts"

text \<open>
  One iteration of the loop: with no thread it only sleeps; otherwise it fetches the
  replies from \<open>last_seen\<close> on, processes them and saves the listener state. The result is the
  daemon after the iteration and the injections made in it.
\<close>

definition poll_tick :: "string option \<Rightarrow> string \<Rightarrow> world \<Rightarrow> daemon \<Rightarrow> daemon \<times> event list" where
  "poll_tick bot_user_id shortcut_key w d =
     (case get_most_recent_thread (w_threads w) of
        None \<Rightarrow> (d, [])
      | Some (conversation_id, thread_ts) \<Rightarrow>
          if thread_ts = [] then (d, [])
          else
            let last_seen = last_seen_of (listener_state d) thread_ts;
                replies = get_thread_replies (w_replies w) thread_ts (Some last_seen)
            in case process_replies bot_user_id (w_osascript w) shortcut_key thread_ts last_seen
                      replies (listener_state d, []) of
                 (st, evs) \<Rightarrow>
                   (\<lparr>listener_state = st, listener_file = save_listener_state st\<rparr>, evs))"

text \<open>
  The loop runs one iteration per element of \<open>ws\<close>: the worlds it meets until a signal clears
  \<open>running\<close>.
\<close>

fun run_ticks ::
  "string option \<Rightarrow> string \<Rightarrow> world list \<Rightarrow> daemon \<Rightarrow> daemon \<times> event list" where
  "run_ticks bot_user_id shortcut_key [] d = (d, [])"
| "run_ticks bot_user_id shortcut_key (w # ws) d =
     (case poll_tick bot_user_id shortcut_key w d of
        (d', evs) \<Rightarrow>
          (case run_ticks bot_user_id shortcut_key ws d' of
             (d'', evs') \<Rightarrow> (d'', evs @ evs')))"

text \<open>
  \<open>run_listener\<close>: the bot's user id is resolved once, the listener state is loaded once,
  then the loop runs.
\<close>

definition run_listener ::
  "string option api \<Rightarrow> listener_state option \<Rightarrow> string \<Rightarrow> world list \<Rightarrow> daemon \<times> event list" where
  "run_listener auth_test file shortcut_key ws =
     run_ticks (get_bot_user_id auth_test) shortcut_key ws
       \<lparr>listener_state = load_listener_state file, listener_file = file\<rparr>"

section \<open>Notions used in the statements\<close>

text \<open>
  The identifier of a message as the loop reads it, \<open>msg.get("ts", "")\<close>, and the two
  conditions of the loop body: a message \<open>advances\<close> the cursor when it passes the checks
  against \<open>last_seen\<close> and the thread root, and it \<open>qualifies\<close> for injection when it also
  passes the bot checks and has text left after stripping.
\<close>

definition ts_of :: "msg \<Rightarrow> string" where
  "ts_of m = get_or (msg_ts m) []"

definition advances :: "string \<Rightarrow> string \<Rightarrow> msg \<Rightarrow> bool" where
  "advances thread_ts last_seen m = (last_seen < ts_of m \<and> ts_of m \<noteq> thread_ts)"

definition qualifies :: "string option \<Rightarrow> string \<Rightarrow> string \<Rightarrow> msg \<Rightarrow> bool" where
  "qualifies bot_user_id thread_ts last_seen m =
     (advances thread_ts last_seen m \<and> \<not> truthy (msg_bot_id m)
      \<and> \<not> (truthy bot_user_id \<and> msg_user m = bot_user_id)
      \<and> strip (get_or (msg_text m) []) \<noteq> [])"

definition injection_of ::
  "(string \<Rightarrow> subprocess_error + unit) \<Rightarrow> string \<Rightarrow> string \<Rightarrow> msg \<Rightarrow> event" where
  "injection_of run_osascript shortcut_key thread_ts m =
     Injection thread_ts m (strip (get_or (msg_text m) []))
       (inject_message run_osascript (strip (get_or (msg_text m) [])) shortcut_key)"

text \<open>
  The remote service of a world returns, for every thread and every \<open>oldest\<close>, messages in
  ascending \<open>ts\<close> order (equal neighbours allowed).
\<close>

definition sorted_world :: "world \<Rightarrow> bool" where
  "sorted_world w =
     (\<forall>thread_ts oldest. sorted (map ts_of (get_thread_replies (w_replies w) thread_ts oldest)))"


text \<open>
  An entry that is an object, and the key \<open>_save_state\<close> sorts such an entry by: its
  \<open>thread_ts\<close>, or \<open>""\<close> when it has none.
\<close>

definition is_dict :: "val \<Rightarrow> bool" where
  "is_dict v = (case v of VDict d \<Rightarrow> True | VStr s \<Rightarrow> False)"

definition ts_key :: "val \<Rightarrow> string" where
  "ts_key v = (case v of VDict d \<Rightarrow> get_or (map_of d ''thread_ts'') [] | VStr s \<Rightarrow> [])"

text \<open>A link as \<open>save_thread_ts\<close> stores it for a new conversation.\<close>

definition link :: "string \<times> string \<Rightarrow> string \<times> val" where
  "link p = (fst p, VDict [(''thread_ts'', snd p)])"

section \<open>Example data\<close>

text \<open>
  A thread \<open>100\<close> of conversation \<open>c1\<close>: the root message posted by the bot, a human reply
  and a bot reply. In \<open>ex_world\<close> the remote service returns the three of them and every
  injection times out.
\<close>

definition ex_root :: msg where
  "ex_root = \<lparr>msg_ts = Some ''100'', msg_bot_id = Some ''B1'', msg_user = Some ''U1'',
               msg_text = Some ''session''\<rparr>"

definition ex_human :: msg where
  "ex_human = \<lparr>msg_ts = Some ''101'', msg_bot_id = None, msg_user = Some ''U2'',
                msg_text = Some '' hi ''\<rparr>"

definition ex_bot :: msg where
  "ex_bot = \<lparr>msg_ts = Some ''102'', msg_bot_id = Some ''B1'', msg_user = Some ''U1'',
              msg_text = Some ''done''\<rparr>"

definition ex_self :: msg where
  "ex_self = \<lparr>msg_ts = Some ''103'', msg_bot_id = None, msg_user = Some ''U1'',
               msg_text = Some ''echo''\<rparr>"

definition ex_threads :: state where
  "ex_threads = [(''c1'', VDict [(''thread_ts'', ''100'')])]"

definition ex_world :: world where
  "ex_world = \<lparr>w_threads = Some ex_threads,
                w_replies = (\<lambda>thread_ts oldest. ApiOk (Some [ex_root, ex_human, ex_bot])),
                w_osascript = (\<lambda>script. Inl TimeoutExpired)\<rparr>"

definition ex_daemon :: daemon where
  "ex_daemon = \<lparr>listener_state = [], listener_file = None\<rparr>"

text \<open>
  Later states of the same daemon, with the cursor of thread \<open>100\<close> at the human reply and at
  the bot reply, and a world whose remote service returns the root message alone.
\<close>

definition ex_seen_daemon :: daemon where
  "ex_seen_daemon = \<lparr>listener_state = [(''100'', ''102'')],
                      listener_file = Some [(''100'', ''102'')]\<rparr>"

definition ex_first_world :: world where
  "ex_first_world = \<lparr>w_threads = Some ex_threads,
                w_replies = (\<lambda>thread_ts oldest. ApiOk (Some [ex_root])),
                w_osascript = (\<lambda>script. Inr ())\<rparr>"

definition ex_human_daemon :: daemon where
  "ex_human_daemon = \<lparr>listener_state = [(''100'', ''101'')],
                       listener_file = Some [(''100'', ''101'')]\<rparr>"

text \<open>A later world of the same thread: the root, the bot reply and a reply by the bot's user.\<close>

definition ex_later_world :: world where
  "ex_later_world = \<lparr>w_threads = Some ex_threads,
                w_replies = (\<lambda>thread_ts oldest. ApiOk (Some [ex_root, ex_bot, ex_self])),
                w_osascript = (\<lambda>script. Inr ())\<rparr>"



text \<open>
  A document with one legacy entry and one current entry, and the same document in the
  current format.
\<close>

definition ex_legacy :: state where
  "ex_legacy = [(''c1'', VStr ''100''), (''c2'', VDict [(''thread_ts'', ''200''), (''file_id'', ''F7'')])]"

definition ex_current :: state where
  "ex_current = [(''c1'', VDict [(''thread_ts'', ''100'')]),
                 (''c2'', VDict [(''thread_ts'', ''200''), (''file_id'', ''F7'')])]"

text \<open>A store in which two conversations have the same, greatest \<open>thread_ts\<close>.\<close>

definition ex_tie :: state where
  "ex_tie = [(''c0'', VDict [(''thread_ts'', ''050'')]),
             (''c1'', VDict [(''thread_ts'', ''100'')]),
             (''c2'', VDict [(''thread_ts'', ''100'')])]"


text \<open>
  150 links with distinct conversation ids \<open>c000\<close> .. \<open>c149\<close> and increasing thread roots
  \<open>100\<close> .. \<open>249\<close>, in the order in which they are stored.
\<close>

definition ex_links :: "(string \<times> string) list" where
  "ex_links =
    [(''c000'', ''100''), (''c001'', ''101''), (''c002'', ''102''), (''c003'', ''103''),
     (''c004'', ''104''), (''c005'', ''105''), (''c006'', ''106''), (''c007'', ''107''),
     (''c008'', ''108''), (''c009'', ''109''), (''c010'', ''110''), (''c011'', ''111''),
     (''c012'', ''112''), (''c013'', ''113''), (''c014'', ''114''), (''c015'', ''115''),
     (''c016'', ''116''), (''c017'', ''117''), (''c018'', ''118''), (''c019'', ''119''),
     (''c020'', ''120''), (''c021'', ''121''), (''c022'', ''122''), (''c023'', ''123''),
     (''c024'', ''124''), (''c025'', ''125''), (''c026'', ''126''), (''c027'', ''127''),
     (''c028'', ''128''), (''c029'', ''129''), (''c030'', ''130''), (''c031'', ''131''),
     (''c032'', ''132''), (''c033'', ''133''), (''c034'', ''134''), (''c035'', ''135''),
     (''c036'', ''136''), (''c037'', ''137''), (''c038'', ''138''), (''c039'', ''139''),
     (''c040'', ''140''), (''c041'', ''141''), (''c042'', ''142''), (''c043'', ''143''),
     (''c044'', ''144''), (''c045'', ''145''), (''c046'', ''146''), (''c047'', ''147''),
     (''c048'', ''148''), (''c049'', ''149''), (''c050'', ''150''), (''c051'', ''151''),
     (''c052'', ''152''), (''c053'', ''153''), (''c054'', ''154''), (''c055'', ''155''),
     (''c056'', ''156''), (''c057'', ''157''), (''c058'', ''158''), (''c059'', ''159''),
     (''c060'', ''160''), (''c061'', ''161''), (''c062'', ''162''), (''c063'', ''163''),
     (''c064'', ''164''), (''c065'', ''165''), (''c066'', ''166''), (''c067'', ''167''),
     (''c068'', ''168''), (''c069'', ''169''), (''c070'', ''170''), (''c071'', ''171''),
     (''c072'', ''172''), (''c073'', ''173''), (''c074'', ''174''), (''c075'', ''175''),
     (''c076'', ''176''), (''c077'', ''177''), (''c078'', ''178''), (''c079'', ''179''),
     (''c080'', ''180''), (''c081'', ''181''), (''c082'', ''182''), (''c083'', ''183''),
     (''c084'', ''184''), (''c085'', ''185''), (''c086'', ''186''), (''c087'', ''187''),
     (''c088'', ''188''), (''c089'', ''189''), (''c090'', ''190''), (''c091'', ''191''),
     (''c092'', ''192''), (''c093'', ''193''), (''c094'', ''194''), (''c095'', ''195''),
     (''c096'', ''196''), (''c097'', ''197''), (''c098'', ''198''), (''c099'', ''199''),
     (''c100'', ''200''), (''c101'', ''201''), (''c102'', ''202''), (''c103'', ''203''),
     (''c104'', ''204''), (''c105'', ''205''), (''c106'', ''206''), (''c107'', ''207''),
     (''c108'', ''208''), (''c109'', ''209''), (''c110'', ''210''), (''c111'', ''211''),
     (''c112'', ''212''), (''c113'', ''213''), (''c114'', ''214''), (''c115'', ''215''),
     (''c116'', ''216''), (''c117'', ''217''), (''c118'', ''218''), (''c119'', ''219''),
     (''c120'', ''220''), (''c121'', ''221''), (''c122'', ''222''), (''c123'', ''223''),
     (''c124'', ''224''), (''c125'', ''225''), (''c126'', ''226''), (''c127'', ''227''),
     (''c128'', ''228''), (''c129'', ''229''), (''c130'', ''230''), (''c131'', ''231''),
     (''c132'', ''232''), (''c133'', ''233''), (''c134'', ''234''), (''c135'', ''235''),
     (''c136'', ''236''), (''c137'', ''237''), (''c138'', ''238''), (''c139'', ''239''),
     (''c140'', ''240''), (''c141'', ''241''), (''c142'', ''242''), (''c143'', ''243''),
     (''c144'', ''244''), (''c145'', ''245''), (''c146'', ''246''), (''c147'', ''247''),
     (''c148'', ''248''), (''c149'', ''249'')]"

text \<open>
  The state \<open>save_transcript_file_id("c000", "F1")\<close> hands to \<open>_save_state\<close> when the
  document holds the first 101 of these links: 101 entries, one more than is kept.
\<close>

definition ex_full :: state where
  "ex_full = (''c000'', VDict [(''thread_ts'', ''100''), (''file_id'', ''F1'')])
             # map link (tl (take 101 ex_links))"

section \<open>The loop body in closed form\<close>

lemma process_msg_eq:
  "process_msg b r k t l m (ls, evs) =
     ((if advances t l m then AList.update t (ts_of m) ls else ls),
      evs @ (if qualifies b t l m then [injection_of r k t m] else []))"
  by (auto simp: process_msg_def advances_def qualifies_def injection_of_def ts_of_def Let_def)

lemma process_replies_eq:
  "process_replies b r k t l ms (ls, evs) =
     (foldl (\<lambda>s m. AList.update t (ts_of m) s) ls (filter (advances t l) ms),
      evs @ map (injection_of r k t) (filter (qualifies b t l) ms))"
  by (induction ms arbitrary: ls evs) (simp_all add: process_msg_eq)

lemma events_msgs:
  "map ev_msg (snd (process_replies b r k t l ms (st, []))) = filter (qualifies b t l) ms"
  by (simp add: process_replies_eq injection_of_def comp_def)

lemma cursor_foldl:
  "map_of (foldl (\<lambda>s m. AList.update t (ts_of m) s) ls xs) t =
     (if xs = [] then map_of ls t else Some (ts_of (last xs)))"
  by (induction xs rule: rev_induct) (simp_all add: update_conv')

lemma other_foldl:
  "t' \<noteq> t \<Longrightarrow> map_of (foldl (\<lambda>s m. AList.update t (ts_of m) s) ls xs) t' = map_of ls t'"
  by (induction xs rule: rev_induct) (simp_all add: update_conv')

lemma poll_tick_events:
  "snd (poll_tick b k w d) =
     (case get_most_recent_thread (w_threads w) of
        None \<Rightarrow> []
      | Some (cid, t) \<Rightarrow>
          if t = [] then []
          else map (injection_of (w_osascript w) k t)
                 (filter (qualifies b t (last_seen_of (listener_state d) t))
                    (get_thread_replies (w_replies w) t
                       (Some (last_seen_of (listener_state d) t)))))"
  by (simp add: poll_tick_def process_replies_eq Let_def split: option.splits prod.splits)

lemma poll_tick_state:
  "listener_state (fst (poll_tick b k w d)) =
     (case get_most_recent_thread (w_threads w) of
        None \<Rightarrow> listener_state d
      | Some (cid, t) \<Rightarrow>
          if t = [] then listener_state d
          else foldl (\<lambda>s m. AList.update t (ts_of m) s) (listener_state d)
                 (filter (advances t (last_seen_of (listener_state d) t))
                    (get_thread_replies (w_replies w) t
                       (Some (last_seen_of (listener_state d) t)))))"
  by (simp add: poll_tick_def process_replies_eq Let_def split: option.splits prod.splits)

text \<open>Every injection of a run is an injection of one of its iterations.\<close>

lemma run_ticks_events:
  "set (snd (run_ticks b k ws d)) \<subseteq> (\<Union>w \<in> set ws. \<Union>d'. set (snd (poll_tick b k w d')))"
proof (induction ws arbitrary: d)
  case Nil
  show ?case by simp
next
  case (Cons w ws)
  obtain d1 evs1 where t: "poll_tick b k w d = (d1, evs1)" by (cases "poll_tick b k w d")
  obtain d2 evs2 where r: "run_ticks b k ws d1 = (d2, evs2)" by (cases "run_ticks b k ws d1")
  have "set evs1 \<subseteq> (\<Union>d'. set (snd (poll_tick b k w d')))"
    using t by (metis UNIV_I UN_upper snd_conv)
  moreover have "set evs2 \<subseteq> (\<Union>w \<in> set ws. \<Union>d'. set (snd (poll_tick b k w d')))"
    using Cons.IH[of d1] r by simp
  ultimately show ?case using t r by auto
qed

section \<open>The thread root is never injected\<close>

text \<open>
  Claim C2. In every iteration of the loop, each injection is made for the thread being
  polled and for a message whose \<open>ts\<close> differs from that thread's root \<open>ts\<close>, whatever the
  message's text; so over a whole run no injection is made for the root message of its
  thread. When the listener state has no cursor for a thread, the cursor read for it is the
  thread's root \<open>ts\<close> itself.
\<close>

theorem root_message_never_injected:
  "(get_most_recent_thread (w_threads w) = Some (cid, thread_ts) \<longrightarrow>
      (\<forall>e \<in> set (snd (poll_tick bot_user_id shortcut_key w d)).
         ev_thread e = thread_ts \<and> ts_of (ev_msg e) \<noteq> thread_ts))
   \<and> (\<forall>e \<in> set (snd (run_ticks bot_user_id shortcut_key ws d)). ts_of (ev_msg e) \<noteq> ev_thread e)
   \<and> (map_of st thread_ts = None \<longrightarrow> last_seen_of st thread_ts = thread_ts)"
proof -
  have tick: "\<forall>e \<in> set (snd (poll_tick bot_user_id shortcut_key w' d')).
                ts_of (ev_msg e) \<noteq> ev_thread e" for w' d'
    by (auto simp: poll_tick_events injection_of_def qualifies_def advances_def
          split: option.splits)
  have run: "\<forall>e \<in> set (snd (run_ticks bot_user_id shortcut_key ws d)).
               ts_of (ev_msg e) \<noteq> ev_thread e"
    using run_ticks_events[of bot_user_id shortcut_key ws d] tick by blast
  show ?thesis
    using run
    by (auto simp: poll_tick_events injection_of_def qualifies_def advances_def
          last_seen_of_def get_or_def)
qed

theorem root_message_never_injected_witness:
  "get_most_recent_thread (w_threads ex_world) = Some (''c1'', ''100'')
   \<and> snd (poll_tick (Some ''U1'') ''l'' ex_world ex_daemon)
       = [Injection ''100'' ex_human ''hi'' Log_timed_out]
   \<and> ev_thread (Injection ''100'' ex_human ''hi'' Log_timed_out) = ''100''
   \<and> ts_of (ev_msg (Injection ''100'' ex_human ''hi'' Log_timed_out)) \<noteq> ''100''
   \<and> map_of (listener_state ex_daemon) ''100'' = None
   \<and> last_seen_of (listener_state ex_daemon) ''100'' = ''100''"
proof -
  have h: "get_most_recent_thread (w_threads ex_world) = Some (''c1'', ''100'')"
    by code_simp
  have evs: "snd (poll_tick (Some ''U1'') ''l'' ex_world ex_daemon)
       = [Injection ''100'' ex_human ''hi'' Log_timed_out]"
    by code_simp
  have n: "map_of (listener_state ex_daemon) ''100'' = None"
    by code_simp
  show ?thesis
    using h evs n
      root_message_never_injected[of ex_world "''c1''" "''100''" "Some ''U1''" "''l''" ex_daemon
        "[]" "listener_state ex_daemon"]
    by simp
qed

section \<open>Injections follow the order of the replies\<close>

text \<open>
  Claim C3. When the messages handed to the loop have strictly increasing \<open>ts\<close>, the
  messages injected are a subsequence of them, injected in strictly increasing \<open>ts\<close> order;
  so are the injections of one iteration whose remote service returns such lists.
\<close>

theorem injections_ascending:
  "(sorted_wrt (<) (map ts_of ms) \<longrightarrow>
      sorted_wrt (<) (map (\<lambda>e. ts_of (ev_msg e)) (snd (process_replies b r k t l ms (st, []))))
      \<and> subseq (map ev_msg (snd (process_replies b r k t l ms (st, [])))) ms)
   \<and> ((\<forall>thread_ts oldest.
          sorted_wrt (<) (map ts_of (get_thread_replies (w_replies w) thread_ts oldest))) \<longrightarrow>
        sorted_wrt (<) (map (\<lambda>e. ts_of (ev_msg e)) (snd (poll_tick b k w d))))"
proof -
  have filt: "sorted_wrt (<) (map ts_of xs) \<Longrightarrow>
      sorted_wrt (<) (map (\<lambda>e. ts_of (ev_msg e)) (map (injection_of r' k t') (filter P xs)))"
    for xs r' t' P
    by (simp add: sorted_wrt_map injection_of_def comp_def sorted_wrt_filter)
  have a: "sorted_wrt (<) (map ts_of ms) \<longrightarrow>
      sorted_wrt (<) (map (\<lambda>e. ts_of (ev_msg e)) (snd (process_replies b r k t l ms (st, []))))"
    using filt[of ms r t "qualifies b t l"] by (simp add: process_replies_eq)
  have b: "subseq (map ev_msg (snd (process_replies b r k t l ms (st, [])))) ms"
    by (simp add: events_msgs)
  have c: "(\<forall>thread_ts oldest.
          sorted_wrt (<) (map ts_of (get_thread_replies (w_replies w) thread_ts oldest))) \<longrightarrow>
        sorted_wrt (<) (map (\<lambda>e. ts_of (ev_msg e)) (snd (poll_tick b k w d)))"
    using filt by (auto simp: poll_tick_events split: option.splits)
  show ?thesis using a b c by blast
qed

theorem injections_ascending_witness:
  "(\<forall>thread_ts oldest.
      sorted_wrt (<) (map ts_of (get_thread_replies (w_replies ex_world) thread_ts oldest)))
   \<and> sorted_wrt (<) (map (\<lambda>e. ts_of (ev_msg e))
         (snd (poll_tick (Some ''U1'') ''l'' ex_world ex_daemon)))
   \<and> sorted_wrt (<) (map ts_of [ex_root, ex_human, ex_bot, ex_self])
   \<and> map ev_msg (snd (process_replies None (\<lambda>s. Inr ()) ''l'' ''100'' ''100''
        [ex_root, ex_human, ex_bot, ex_self] ([], []))) = [ex_human, ex_self]
   \<and> sorted_wrt (<) (map (\<lambda>e. ts_of (ev_msg e)) (snd (process_replies None (\<lambda>s. Inr ()) ''l''
        ''100'' ''100'' [ex_root, ex_human, ex_bot, ex_self] ([], []))))"
proof -
  have h: "sorted_wrt (<) (map ts_of [ex_root, ex_human, ex_bot, ex_self])"
    by code_simp
  have e: "map ev_msg (snd (process_replies None (\<lambda>s. Inr ()) ''l'' ''100'' ''100''
        [ex_root, ex_human, ex_bot, ex_self] ([], []))) = [ex_human, ex_self]"
    by code_simp
  have w: "\<forall>thread_ts oldest.
      sorted_wrt (<) (map ts_of (get_thread_replies (w_replies ex_world) thread_ts oldest))"
    by (simp add: get_thread_replies_def ex_world_def) code_simp
  show ?thesis
    using h e w
      injections_ascending[where ms = "[ex_root, ex_human, ex_bot, ex_self]" and b = None
        and r = "\<lambda>s. Inr ()" and k = "''l''" and t = "''100''" and l = "''100''"
        and st = "[]" and w = ex_world and d = ex_daemon]
      injections_ascending[where ms = "[]" and w = ex_world and b = "Some ''U1''"
        and k = "''l''" and d = ex_daemon]
    by blast
qed

section \<open>Bot messages\<close>

text \<open>
  Claim C1, as stated, fails: a message with a bot id that is returned at or below the
  cursor is skipped by the first check of the loop body, and the cursor is not set to its
  \<open>ts\<close>. Here the thread's root message, posted by the bot, is returned while the cursor is
  at \<open>102\<close>; the cursor stays at \<open>102\<close>.
\<close>

theorem bot_message_cursor_counterexample:
  "ex_root \<in> set (get_thread_replies (w_replies ex_world) ''100''
                   (Some (last_seen_of (listener_state ex_seen_daemon) ''100'')))
   \<and> truthy (msg_bot_id ex_root)
   \<and> ts_of ex_root = ''100''
   \<and> map_of (fst (process_replies (Some ''U1'') (w_osascript ex_world) ''l'' ''100'' ''102''
         [ex_root] (listener_state ex_seen_daemon, []))) ''100'' = Some ''102''
   \<and> map_of (listener_state (fst (poll_tick (Some ''U1'') ''l'' ex_world ex_seen_daemon)))
        ''100'' = Some ''102''"
  by code_simp

text \<open>
  Claim C1, amended. A message with a non-empty bot id, or whose author is the non-empty
  resolved user id of the daemon, is never injected, whatever its text: not by the loop
  over any list of replies, not in any iteration, not in any run. When its \<open>ts\<close> is above
  \<open>last_seen\<close> and is not the thread root, processing it sets the cursor of the thread to its
  \<open>ts\<close> and injects nothing. When its \<open>ts\<close> is at or below \<open>last_seen\<close>, or is the thread
  root, it is skipped without touching the cursor: the listener state and the trace after
  it are those before it.
\<close>

theorem bot_messages_not_injected:
  "truthy (msg_bot_id m) \<or> (truthy b \<and> msg_user m = b) \<longrightarrow>
     (\<forall>e \<in> set (snd (process_replies b r k t l ms (st, []))). ev_msg e \<noteq> m)
     \<and> (\<forall>e \<in> set (snd (poll_tick b k w d)). ev_msg e \<noteq> m)
     \<and> (\<forall>e \<in> set (snd (run_ticks b k ws d)). ev_msg e \<noteq> m)
     \<and> (l < ts_of m \<and> ts_of m \<noteq> t \<longrightarrow>
          process_msg b r k t l m (st, evs) = (AList.update t (ts_of m) st, evs)
          \<and> map_of (fst (process_replies b r k t l (pre @ [m]) (st, evs))) t = Some (ts_of m))
     \<and> (ts_of m \<le> l \<or> ts_of m = t \<longrightarrow>
          process_msg b r k t l m (st, evs) = (st, evs)
          \<and> process_replies b r k t l (pre @ [m]) (st, evs)
              = process_replies b r k t l pre (st, evs))"
proof
  assume bot: "truthy (msg_bot_id m) \<or> (truthy b \<and> msg_user m = b)"
  then have nq: "\<not> qualifies b t' l' m" for t' l'
    by (auto simp: qualifies_def)
  have a: "\<forall>e \<in> set (snd (process_replies b r k t l ms (st, []))). ev_msg e \<noteq> m"
    using nq by (auto simp: process_replies_eq injection_of_def)
  have tick: "\<forall>e \<in> set (snd (poll_tick b k w' d')). ev_msg e \<noteq> m" for w' d'
    using nq by (auto simp: poll_tick_events injection_of_def split: option.splits)
  have run: "\<forall>e \<in> set (snd (run_ticks b k ws d)). ev_msg e \<noteq> m"
    using run_ticks_events[of b k ws d] tick by blast
  have c: "l < ts_of m \<and> ts_of m \<noteq> t \<longrightarrow>
          process_msg b r k t l m (st, evs) = (AList.update t (ts_of m) st, evs)
          \<and> map_of (fst (process_replies b r k t l (pre @ [m]) (st, evs))) t = Some (ts_of m)"
    using nq by (simp add: process_msg_eq process_replies_eq advances_def update_conv')
  have skip: "ts_of m \<le> l \<or> ts_of m = t \<longrightarrow>
          process_msg b r k t l m (st, evs) = (st, evs)
          \<and> process_replies b r k t l (pre @ [m]) (st, evs)
              = process_replies b r k t l pre (st, evs)"
  proof
    assume "ts_of m \<le> l \<or> ts_of m = t"
    then have na: "\<not> advances t l m" by (auto simp: advances_def)
    show "process_msg b r k t l m (st, evs) = (st, evs)
          \<and> process_replies b r k t l (pre @ [m]) (st, evs)
              = process_replies b r k t l pre (st, evs)"
      using na nq by (simp add: process_msg_eq process_replies_eq)
  qed
  show "(\<forall>e \<in> set (snd (process_replies b r k t l ms (st, []))). ev_msg e \<noteq> m)
     \<and> (\<forall>e \<in> set (snd (poll_tick b k w d)). ev_msg e \<noteq> m)
     \<and> (\<forall>e \<in> set (snd (run_ticks b k ws d)). ev_msg e \<noteq> m)
     \<and> (l < ts_of m \<and> ts_of m \<noteq> t \<longrightarrow>
          process_msg b r k t l m (st, evs) = (AList.update t (ts_of m) st, evs)
          \<and> map_of (fst (process_replies b r k t l (pre @ [m]) (st, evs))) t = Some (ts_of m))
     \<and> (ts_of m \<le> l \<or> ts_of m = t \<longrightarrow>
          process_msg b r k t l m (st, evs) = (st, evs)
          \<and> process_replies b r k t l (pre @ [m]) (st, evs)
              = process_replies b r k t l pre (st, evs))"
    using a tick run c skip by blast
qed

theorem bot_messages_not_injected_witness:
  "truthy (msg_bot_id ex_bot)
   \<and> ''100'' < ts_of ex_bot \<and> ts_of ex_bot \<noteq> ''100''
   \<and> snd (poll_tick (Some ''U1'') ''l'' ex_world ex_daemon)
       = [Injection ''100'' ex_human ''hi'' Log_timed_out]
   \<and> ev_msg (Injection ''100'' ex_human ''hi'' Log_timed_out) \<noteq> ex_bot
   \<and> map_of (fst (process_replies (Some ''U1'') (w_osascript ex_world) ''l'' ''100'' ''100''
        ([ex_root, ex_human] @ [ex_bot]) ([], []))) ''100'' = Some (ts_of ex_bot)
   \<and> truthy (msg_bot_id ex_root)
   \<and> ts_of ex_root \<le> ''102''
   \<and> process_msg (Some ''U1'') (w_osascript ex_world) ''l'' ''100'' ''102'' ex_root
        ([(''100'', ''102'')], []) = ([(''100'', ''102'')], [])"
proof -
  have h: "truthy (msg_bot_id ex_bot)" by code_simp
  have g: "''100'' < ts_of ex_bot \<and> ts_of ex_bot \<noteq> ''100''" by code_simp
  have evs: "snd (poll_tick (Some ''U1'') ''l'' ex_world ex_daemon)
       = [Injection ''100'' ex_human ''hi'' Log_timed_out]"
    by code_simp
  have first: "ev_msg (Injection ''100'' ex_human ''hi'' Log_timed_out) \<noteq> ex_bot
   \<and> map_of (fst (process_replies (Some ''U1'') (w_osascript ex_world) ''l'' ''100'' ''100''
        ([ex_root, ex_human] @ [ex_bot]) ([], []))) ''100'' = Some (ts_of ex_bot)"
    using h g evs
      bot_messages_not_injected[where m = ex_bot and b = "Some ''U1''"
        and r = "w_osascript ex_world" and k = "''l''" and t = "''100''" and l = "''100''"
        and ms = "[]" and st = "[]" and w = ex_world and d = ex_daemon and ws = "[]"
        and evs = "[]" and pre = "[ex_root, ex_human]"]
    by simp
  have h': "truthy (msg_bot_id ex_root)" by code_simp
  have g': "ts_of ex_root \<le> ''102''" by code_simp
  have second: "process_msg (Some ''U1'') (w_osascript ex_world) ''l'' ''100'' ''102'' ex_root
        ([(''100'', ''102'')], []) = ([(''100'', ''102'')], [])"
    using h' g'
      bot_messages_not_injected[where m = ex_root and b = "Some ''U1''"
        and r = "w_osascript ex_world" and k = "''l''" and t = "''100''" and l = "''102''"
        and ms = "[]" and st = "[(''100'', ''102'')]" and w = ex_world and d = ex_daemon
        and ws = "[]" and evs = "[]" and pre = "[]"]
    by blast
  show ?thesis using h g evs first h' g' second by blast
qed

section \<open>The root message and the stored cursor\<close>

text \<open>
  Claim C8, as stated, fails: on the first poll of a thread the root message is skipped, but
  nothing is stored for the thread; the listener state, and the document saved at the end of
  the iteration, still have no cursor for it.
\<close>

theorem root_cursor_not_stored_counterexample:
  "get_most_recent_thread (w_threads ex_first_world) = Some (''c1'', ''100'')
   \<and> get_thread_replies (w_replies ex_first_world) ''100'' (Some ''100'') = [ex_root]
   \<and> ts_of ex_root = ''100''
   \<and> map_of (listener_state ex_daemon) ''100'' = None
   \<and> map_of (listener_state (fst (poll_tick (Some ''U1'') ''l'' ex_first_world ex_daemon)))
        ''100'' = None
   \<and> listener_file (fst (poll_tick (Some ''U1'') ''l'' ex_first_world ex_daemon)) = Some []"
  by code_simp

text \<open>
  Claim C8, amended. A message whose \<open>ts\<close> equals the thread root is skipped: no injection
  and no change of the listener state. When no cursor is stored for the thread, none is
  stored afterwards either, and the cursor read for the thread is, by default, that \<open>ts\<close>.
\<close>

theorem root_message_skipped:
  "ts_of m = thread_ts \<longrightarrow>
     process_msg b r k thread_ts last_seen m (st, evs) = (st, evs)
     \<and> (map_of st thread_ts = None \<longrightarrow>
          map_of (fst (process_msg b r k thread_ts last_seen m (st, evs))) thread_ts = None
          \<and> last_seen_of (fst (process_msg b r k thread_ts last_seen m (st, evs))) thread_ts
              = ts_of m)"
  by (simp add: process_msg_eq advances_def qualifies_def last_seen_of_def get_or_def)

theorem root_message_skipped_witness:
  "ts_of ex_root = ''100''
   \<and> map_of ([] :: listener_state) ''100'' = None
   \<and> process_msg (Some ''U1'') (\<lambda>s. Inr ()) ''l'' ''100'' ''100'' ex_root ([], []) = ([], [])
   \<and> last_seen_of (fst (process_msg (Some ''U1'') (\<lambda>s. Inr ()) ''l'' ''100'' ''100'' ex_root
         ([], []))) ''100'' = ''100''"
proof -
  have h: "ts_of ex_root = ''100''" by code_simp
  have n: "map_of ([] :: listener_state) ''100'' = None" by simp
  show ?thesis
    using h n
      root_message_skipped[where m = ex_root and thread_ts = "''100''" and b = "Some ''U1''"
        and r = "\<lambda>s. Inr ()" and k = "''l''" and last_seen = "''100''" and st = "[]"
        and evs = "[]"]
    by (simp add: last_seen_of_def get_or_def)
qed

section \<open>An unresolved bot identity\<close>

text \<open>
  Claim C10, as stated, fails: with the identity unresolved, a message with no bot id and
  with text left after stripping is still not injected when the first check of the loop body
  skips it. Here the human reply \<open>101\<close> is returned again while the cursor is at \<open>101\<close>.
\<close>

theorem unresolved_identity_counterexample:
  "get_bot_user_id (ApiRaised ''timed out'') = None
   \<and> ex_human \<in> set (get_thread_replies (w_replies ex_world) ''100''
                   (Some (last_seen_of (listener_state ex_human_daemon) ''100'')))
   \<and> \<not> truthy (msg_bot_id ex_human)
   \<and> strip (get_or (msg_text ex_human) []) = ''hi''
   \<and> snd (poll_tick (get_bot_user_id (ApiRaised ''timed out'')) ''l'' ex_world ex_human_daemon)
       = []"
  by code_simp

text \<open>
  Claim C10, amended. When \<open>get_bot_user_id\<close> returns \<open>None\<close>, a message whose \<open>ts\<close> is above
  \<open>last_seen\<close> and is not the thread root, and whose stripped text is not empty, is injected
  if it has no (non-empty) bot id, whoever its author is, the daemon's own user id included;
  with a bot id it is not injected. In both cases the cursor is set to its \<open>ts\<close>.
\<close>

theorem unresolved_identity_skips_author_filter:
  "get_bot_user_id auth_test = None \<and> l < ts_of m \<and> ts_of m \<noteq> t
   \<and> strip (get_or (msg_text m) []) \<noteq> [] \<longrightarrow>
     (\<not> truthy (msg_bot_id m) \<longrightarrow>
        process_msg (get_bot_user_id auth_test) r k t l (m\<lparr>msg_user := own_id\<rparr>) (st, evs)
          = (AList.update t (ts_of m) st, evs @ [injection_of r k t (m\<lparr>msg_user := own_id\<rparr>)]))
     \<and> (truthy (msg_bot_id m) \<longrightarrow>
        process_msg (get_bot_user_id auth_test) r k t l (m\<lparr>msg_user := own_id\<rparr>) (st, evs)
          = (AList.update t (ts_of m) st, evs))"
  by (simp add: process_msg_eq advances_def qualifies_def ts_of_def truthy_def)

theorem unresolved_identity_skips_author_filter_witness:
  "get_bot_user_id (ApiNotOk ''invalid_auth'') = None
   \<and> ''100'' < ts_of ex_human \<and> ts_of ex_human \<noteq> ''100''
   \<and> strip (get_or (msg_text ex_human) []) \<noteq> []
   \<and> \<not> truthy (msg_bot_id ex_human)
   \<and> process_msg (get_bot_user_id (ApiNotOk ''invalid_auth'')) (\<lambda>s. Inr ()) ''l'' ''100'' ''100''
        (ex_human\<lparr>msg_user := Some ''U1''\<rparr>) ([], [])
       = ([(''100'', ''101'')],
          [Injection ''100'' (ex_human\<lparr>msg_user := Some ''U1''\<rparr>) ''hi'' (Log_injected 2)])"
proof -
  have h: "get_bot_user_id (ApiNotOk ''invalid_auth'') = None
     \<and> ''100'' < ts_of ex_human \<and> ts_of ex_human \<noteq> ''100''
     \<and> strip (get_or (msg_text ex_human) []) \<noteq> []"
    by code_simp
  have nb: "\<not> truthy (msg_bot_id ex_human)" by code_simp
  have v: "(AList.update ''100'' (ts_of ex_human) [],
            [] @ [injection_of (\<lambda>s. Inr ()) ''l'' ''100'' (ex_human\<lparr>msg_user := Some ''U1''\<rparr>)])
      = ([(''100'', ''101'')],
          [Injection ''100'' (ex_human\<lparr>msg_user := Some ''U1''\<rparr>) ''hi'' (Log_injected 2)])"
    by code_simp
  show ?thesis
    using h nb v
      unresolved_identity_skips_author_filter[where auth_test = "ApiNotOk ''invalid_auth''"
        and l = "''100''" and m = ex_human and t = "''100''" and r = "\<lambda>s. Inr ()"
        and k = "''l''" and own_id = "Some ''U1''" and st = "[]" and evs = "[]"]
    by simp
qed

section \<open>The cursor never moves back\<close>

lemma sorted_map_appendD:
  "sorted (map f (xs @ ys)) \<Longrightarrow> x \<in> set xs \<Longrightarrow> y \<in> set ys \<Longrightarrow> f x \<le> f y"
  by (auto simp: sorted_append)

lemma last_seen_foldl:
  "last_seen_of (foldl (\<lambda>s m. AList.update t (ts_of m) s) st xs) t' =
     (if t' = t \<and> xs \<noteq> [] then ts_of (last xs) else last_seen_of st t')"
  by (cases "t' = t") (simp_all add: last_seen_of_def get_or_def cursor_foldl other_foldl)

lemma cursor_mono_append:
  assumes "sorted (map ts_of (xs @ ys))"
  shows "last_seen_of (fst (process_replies b r k t (last_seen_of st t) xs (st, evs))) t'
         \<le> last_seen_of (fst (process_replies b r k t (last_seen_of st t) (xs @ ys) (st, evs))) t'"
proof -
  let ?l = "last_seen_of st t"
  let ?F = "filter (advances t ?l) xs" and ?G = "filter (advances t ?l) ys"
  show ?thesis
  proof (cases "t' = t")
    case False
    then show ?thesis by (simp add: process_replies_eq last_seen_foldl)
  next
    case True
    show ?thesis
    proof (cases "?G = []")
      case True
      then show ?thesis by (simp add: process_replies_eq last_seen_foldl)
    next
      case G: False
      then have lastG: "last ?G \<in> set ys" "advances t ?l (last ?G)"
        using last_in_set[of ?G] by auto
      show ?thesis
      proof (cases "?F = []")
        case True
        then show ?thesis
          using G lastG \<open>t' = t\<close>
          by (simp add: process_replies_eq last_seen_foldl advances_def less_imp_le)
      next
        case F: False
        then have "last ?F \<in> set xs" using last_in_set[of ?F] by auto
        then have "ts_of (last ?F) \<le> ts_of (last ?G)"
          using sorted_map_appendD[OF assms] lastG(1) by blast
        then show ?thesis
          using F G \<open>t' = t\<close> by (simp add: process_replies_eq last_seen_foldl)
      qed
    qed
  qed
qed

lemma take_split: "i \<le> j \<Longrightarrow> take j xs = take i xs @ drop i (take j xs)"
  by (metis append_take_drop_id min.absorb1 take_take)

lemma cursor_mono_take:
  assumes "sorted (map ts_of ms)" and "i \<le> j"
  shows "last_seen_of (fst (process_replies b r k t (last_seen_of st t) (take i ms) (st, evs))) t'
         \<le> last_seen_of (fst (process_replies b r k t (last_seen_of st t) (take j ms) (st, evs))) t'"
proof -
  have "sorted (map ts_of (take j ms))"
    using assms(1) by (simp add: sorted_wrt_take flip: take_map)
  then have "sorted (map ts_of (take i ms @ drop i (take j ms)))"
    using take_split[OF assms(2), of ms] by simp
  from cursor_mono_append[OF this, of b r k t st evs t'] show ?thesis
    using take_split[OF assms(2), of ms] by simp
qed

lemma tick_cursor_mono:
  assumes "sorted_world w"
  shows "last_seen_of (listener_state d) t'
         \<le> last_seen_of (listener_state (fst (poll_tick b k w d))) t'"
proof (cases "get_most_recent_thread (w_threads w)")
  case None
  then show ?thesis by (simp add: poll_tick_def)
next
  case (Some p)
  obtain cid t where p: "p = (cid, t)" by (cases p)
  show ?thesis
  proof (cases "t = []")
    case True
    then show ?thesis using Some p by (simp add: poll_tick_def)
  next
    case False
    let ?ms = "get_thread_replies (w_replies w) t (Some (last_seen_of (listener_state d) t))"
    have "sorted (map ts_of ([] @ ?ms))" using assms by (simp add: sorted_world_def)
    from cursor_mono_append[OF this, of b "w_osascript w" k t "listener_state d" "[]" t']
    show ?thesis
      using Some p False by (simp add: poll_tick_state process_replies_eq)
  qed
qed

lemma run_ticks_fst:
  "fst (run_ticks b k (w # ws) d) = fst (run_ticks b k ws (fst (poll_tick b k w d)))"
  by (simp split: prod.splits)


lemma run_ticks_append:
  "fst (run_ticks b k (xs @ ys) d) = fst (run_ticks b k ys (fst (run_ticks b k xs d)))"
  by (induction xs arbitrary: d) (simp_all add: run_ticks_fst del: run_ticks.simps(2))

lemma run_cursor_mono:
  assumes "\<forall>w \<in> set ws. sorted_world w"
  shows "last_seen_of (listener_state d) t'
         \<le> last_seen_of (listener_state (fst (run_ticks b k ws d))) t'"
  using assms
proof (induction ws arbitrary: d)
  case Nil
  show ?case by simp
next
  case (Cons w ws)
  have 1: "last_seen_of (listener_state d) t'
           \<le> last_seen_of (listener_state (fst (poll_tick b k w d))) t'"
    using Cons.prems tick_cursor_mono by simp
  have 2: "last_seen_of (listener_state (fst (poll_tick b k w d))) t'
           \<le> last_seen_of (listener_state (fst (run_ticks b k ws (fst (poll_tick b k w d))))) t'"
    using Cons.IH[of "fst (poll_tick b k w d)"] Cons.prems by simp
  show ?case using 1 2 by (simp add: run_ticks_fst del: run_ticks.simps(2))
qed

lemma stored_foldl:
  "map_of st t' = Some a \<Longrightarrow>
   \<exists>c. map_of (foldl (\<lambda>s m. AList.update t (ts_of m) s) st xs) t' = Some c"
  by (cases "t' = t") (simp_all add: cursor_foldl other_foldl)

lemma tick_stored:
  "map_of (listener_state d) t' = Some a \<Longrightarrow>
   \<exists>c. map_of (listener_state (fst (poll_tick b k w d))) t' = Some c"
  by (auto simp: poll_tick_state stored_foldl split: option.splits)

lemma run_stored:
  "map_of (listener_state d) t' = Some a \<Longrightarrow>
   \<exists>c. map_of (listener_state (fst (run_ticks b k ws d))) t' = Some c"
proof (induction ws arbitrary: d a)
  case Nil
  then show ?case by simp
next
  case (Cons w ws)
  from tick_stored[OF Cons.prems, of b k w] obtain c
    where "map_of (listener_state (fst (poll_tick b k w d))) t' = Some c" by blast
  from Cons.IH[OF this] show ?case by (simp add: run_ticks_fst del: run_ticks.simps(2))
qed

lemma run_mono_take:
  assumes "\<forall>w \<in> set ws. sorted_world w" and "i \<le> j"
  shows "last_seen_of (listener_state (fst (run_ticks b k (take i ws) d))) t'
         \<le> last_seen_of (listener_state (fst (run_ticks b k (take j ws) d))) t'"
    and "map_of (listener_state (fst (run_ticks b k (take i ws) d))) t' = Some a \<Longrightarrow>
         \<exists>c. map_of (listener_state (fst (run_ticks b k (take j ws) d))) t' = Some c"
proof -
  let ?rest = "drop i (take j ws)"
  have s: "\<forall>w \<in> set ?rest. sorted_world w"
    using assms(1) by (meson in_set_dropD in_set_takeD)
  have e: "fst (run_ticks b k (take j ws) d)
           = fst (run_ticks b k ?rest (fst (run_ticks b k (take i ws) d)))"
    using take_split[OF assms(2), of ws] run_ticks_append[of b k "take i ws" ?rest d] by simp
  show "last_seen_of (listener_state (fst (run_ticks b k (take i ws) d))) t'
         \<le> last_seen_of (listener_state (fst (run_ticks b k (take j ws) d))) t'"
    using run_cursor_mono[OF s] e by simp
  show "map_of (listener_state (fst (run_ticks b k (take i ws) d))) t' = Some a \<Longrightarrow>
         \<exists>c. map_of (listener_state (fst (run_ticks b k (take j ws) d))) t' = Some c"
    using run_stored e by simp
qed

text \<open>
  Claim C4. When the messages of one iteration come in ascending \<open>ts\<close> order and the loop
  starts from the cursor it read (\<open>last_seen_of st t\<close>), the cursor of every thread after
  the first \<open>i\<close> messages is at most the cursor after the first \<open>j\<close>, for \<open>i \<le> j\<close>. When every
  world of a run returns its messages in ascending order, the cursor of every thread after
  \<open>i\<close> iterations is at most the cursor after \<open>j\<close> iterations; in particular a cursor that is
  stored stays stored, with a value that is at least the earlier one.
\<close>

theorem cursor_monotone:
  "(sorted (map ts_of ms) \<and> i \<le> j \<longrightarrow>
      last_seen_of (fst (process_replies b r k t (last_seen_of st t) (take i ms) (st, evs))) t'
      \<le> last_seen_of (fst (process_replies b r k t (last_seen_of st t) (take j ms) (st, evs))) t')
   \<and> ((\<forall>w \<in> set ws. sorted_world w) \<and> i \<le> j \<longrightarrow>
        last_seen_of (listener_state (fst (run_ticks b k (take i ws) d))) t'
        \<le> last_seen_of (listener_state (fst (run_ticks b k (take j ws) d))) t'
        \<and> (\<forall>a. map_of (listener_state (fst (run_ticks b k (take i ws) d))) t' = Some a \<longrightarrow>
              (\<exists>c. map_of (listener_state (fst (run_ticks b k (take j ws) d))) t' = Some c
                   \<and> a \<le> c)))"
proof -
  have tick: "sorted (map ts_of ms) \<and> i \<le> j \<longrightarrow>
      last_seen_of (fst (process_replies b r k t (last_seen_of st t) (take i ms) (st, evs))) t'
      \<le> last_seen_of (fst (process_replies b r k t (last_seen_of st t) (take j ms) (st, evs))) t'"
    using cursor_mono_take by blast
  have run: "last_seen_of (listener_state (fst (run_ticks b k (take i ws) d))) t'
        \<le> last_seen_of (listener_state (fst (run_ticks b k (take j ws) d))) t'
        \<and> (\<forall>a. map_of (listener_state (fst (run_ticks b k (take i ws) d))) t' = Some a \<longrightarrow>
              (\<exists>c. map_of (listener_state (fst (run_ticks b k (take j ws) d))) t' = Some c
                   \<and> a \<le> c))"
    if h: "\<forall>w \<in> set ws. sorted_world w" "i \<le> j"
  proof -
    have le: "last_seen_of (listener_state (fst (run_ticks b k (take i ws) d))) t'
        \<le> last_seen_of (listener_state (fst (run_ticks b k (take j ws) d))) t'"
      using run_mono_take(1)[OF h] .
    have "\<exists>c. map_of (listener_state (fst (run_ticks b k (take j ws) d))) t' = Some c \<and> a \<le> c"
      if a: "map_of (listener_state (fst (run_ticks b k (take i ws) d))) t' = Some a" for a
    proof -
      from run_mono_take(2)[OF h a] obtain c
        where c: "map_of (listener_state (fst (run_ticks b k (take j ws) d))) t' = Some c"
        by blast
      have "a \<le> c" using le a c by (simp add: last_seen_of_def get_or_def)
      then show ?thesis using c by blast
    qed
    then show ?thesis using le by blast
  qed
  show ?thesis using tick run by blast
qed

theorem cursor_monotone_witness:
  "sorted (map ts_of [ex_root, ex_human, ex_bot]) \<and> (1::nat) \<le> 3
   \<and> sorted_world ex_world \<and> sorted_world ex_later_world \<and> (1::nat) \<le> 2
   \<and> last_seen_of (fst (process_replies (Some ''U1'') (\<lambda>s. Inr ()) ''l'' ''100''
        (last_seen_of [] ''100'') (take 1 [ex_root, ex_human, ex_bot]) ([], []))) ''100'' = ''100''
   \<and> last_seen_of (fst (process_replies (Some ''U1'') (\<lambda>s. Inr ()) ''l'' ''100''
        (last_seen_of [] ''100'') (take 3 [ex_root, ex_human, ex_bot]) ([], []))) ''100'' = ''102''
   \<and> map_of (listener_state (fst (run_ticks (Some ''U1'') ''l''
        (take 1 [ex_world, ex_later_world]) ex_daemon))) ''100'' = Some ''102''
   \<and> map_of (listener_state (fst (run_ticks (Some ''U1'') ''l''
        (take 2 [ex_world, ex_later_world]) ex_daemon))) ''100'' = Some ''103''
   \<and> last_seen_of (listener_state (fst (run_ticks (Some ''U1'') ''l''
        (take 1 [ex_world, ex_later_world]) ex_daemon))) ''100''
     \<le> last_seen_of (listener_state (fst (run_ticks (Some ''U1'') ''l''
        (take 2 [ex_world, ex_later_world]) ex_daemon))) ''100''"
proof -
  have s: "sorted (map ts_of [ex_root, ex_human, ex_bot])" by code_simp
  have w1: "sorted_world ex_world"
    by (simp add: sorted_world_def get_thread_replies_def ex_world_def) code_simp
  have w2: "sorted_world ex_later_world"
    by (simp add: sorted_world_def get_thread_replies_def ex_later_world_def) code_simp
  have v1: "last_seen_of (fst (process_replies (Some ''U1'') (\<lambda>s. Inr ()) ''l'' ''100''
        (last_seen_of [] ''100'') (take 1 [ex_root, ex_human, ex_bot]) ([], []))) ''100'' = ''100''"
    by code_simp
  have v2: "last_seen_of (fst (process_replies (Some ''U1'') (\<lambda>s. Inr ()) ''l'' ''100''
        (last_seen_of [] ''100'') (take 3 [ex_root, ex_human, ex_bot]) ([], []))) ''100'' = ''102''"
    by code_simp
  have v3: "map_of (listener_state (fst (run_ticks (Some ''U1'') ''l''
        (take 1 [ex_world, ex_later_world]) ex_daemon))) ''100'' = Some ''102''"
    by code_simp
  have v4: "map_of (listener_state (fst (run_ticks (Some ''U1'') ''l''
        (take 2 [ex_world, ex_later_world]) ex_daemon))) ''100'' = Some ''103''"
    by code_simp
  have ws: "\<forall>w \<in> set [ex_world, ex_later_world]. sorted_world w"
    using w1 w2 by simp
  have "last_seen_of (listener_state (fst (run_ticks (Some ''U1'') ''l''
        (take 1 [ex_world, ex_later_world]) ex_daemon))) ''100''
     \<le> last_seen_of (listener_state (fst (run_ticks (Some ''U1'') ''l''
        (take 2 [ex_world, ex_later_world]) ex_daemon))) ''100''"
    using ws
      cursor_monotone[where ws = "[ex_world, ex_later_world]" and i = 1 and j = 2
        and b = "Some ''U1''" and k = "''l''" and d = ex_daemon and t' = "''100''"
        and ms = "[]"]
    by simp
  then show ?thesis using s w1 w2 v1 v2 v3 v4 by simp
qed

section \<open>A failed injection\<close>









section \<open>Loading a legacy document\<close>

text \<open>
  The loop of \<open>_load_state\<close> depends on the document only through its migrated entries, and
  on a document with distinct keys it returns them in the document's order.
\<close>

lemma update_fresh: "k \<notin> fst ` set al \<Longrightarrow> AList.update k v al = al @ [(k, v)]"
  by (induction al) auto

lemma load_fold_map:
  "foldl (\<lambda>migrated (k, v). AList.update k (migrate v) migrated) acc data
   = foldl (\<lambda>migrated (k, v). AList.update k v migrated) acc
       (map (\<lambda>(k, v). (k, migrate v)) data)"
  by (induction data arbitrary: acc) (auto simp: case_prod_beta)

lemma fold_update_distinct:
  "distinct (map fst data) \<Longrightarrow> fst ` set acc \<inter> fst ` set data = {} \<Longrightarrow>
   foldl (\<lambda>migrated (k, v). AList.update k v migrated) acc data = acc @ data"
proof (induction data arbitrary: acc)
  case Nil
  show ?case by simp
next
  case (Cons p data)
  obtain k v where p: "p = (k, v)" by (cases p)
  have fresh: "k \<notin> fst ` set acc" using Cons.prems(2) p by auto
  have "fst ` set (acc @ [(k, v)]) \<inter> fst ` set data = {}"
    using Cons.prems p by auto
  then show ?case
    using Cons.IH[of "acc @ [(k, v)]"] Cons.prems(1) p fresh by (simp add: update_fresh)
qed

lemma load_state_distinct:
  "distinct (map fst data) \<Longrightarrow> load_state (Some data) = map (\<lambda>(k, v). (k, migrate v)) data"
proof -
  assume d: "distinct (map fst data)"
  have e: "map fst (map (\<lambda>(k, v). (k, migrate v)) data) = map fst data"
    by (induction data) auto
  have "distinct (map fst (map (\<lambda>(k, v). (k, migrate v)) data))"
    unfolding e using d .
  from fold_update_distinct[OF this, of "[]"] show ?thesis
    by (simp add: load_state_def load_fold_map)
qed

lemma load_state_migrated:
  "map (\<lambda>(k, v). (k, migrate v)) a = map (\<lambda>(k, v). (k, migrate v)) b \<Longrightarrow>
   load_state (Some a) = load_state (Some b)"
  by (simp add: load_state_def load_fold_map)

text \<open>
  Claim C6. A document in which a conversation's value is the bare \<open>thread_ts\<close> string
  loads to exactly the state of the document that has, in its place, the record with only
  \<open>thread_ts\<close> set; so does a document made of bare strings only. On a document with distinct
  keys (every parsed JSON object) the state loaded is the document itself, in order, with
  each bare string wrapped and every other entry untouched, and the \<open>thread_ts\<close> of a legacy
  entry is read back by \<open>get_thread_ts\<close>: nothing is lost.
\<close>

theorem legacy_load_same_state:
  "load_state (Some (pre @ (k, VStr s) # post))
     = load_state (Some (pre @ (k, VDict [(''thread_ts'', s)]) # post))
   \<and> load_state (Some (map (\<lambda>(k, s). (k, VStr s)) links))
     = load_state (Some (map (\<lambda>(k, s). (k, VDict [(''thread_ts'', s)])) links))
   \<and> (distinct (map fst data) \<longrightarrow>
        load_state (Some data) = map (\<lambda>(k, v). (k, migrate v)) data)
   \<and> (distinct (map fst data) \<and> map_of data k = Some (VStr s) \<longrightarrow>
        map_of (load_state (Some data)) k = Some (VDict [(''thread_ts'', s)])
        \<and> get_thread_ts k (Some data) = Inr (Some s))"
proof -
  have a: "load_state (Some (pre @ (k, VStr s) # post))
     = load_state (Some (pre @ (k, VDict [(''thread_ts'', s)]) # post))"
    by (rule load_state_migrated) (simp add: migrate_def)
  have b: "load_state (Some (map (\<lambda>(k, s). (k, VStr s)) links))
     = load_state (Some (map (\<lambda>(k, s). (k, VDict [(''thread_ts'', s)])) links))"
    by (rule load_state_migrated) (simp add: migrate_def case_prod_beta comp_def)
  have c: "distinct (map fst data) \<longrightarrow>
        load_state (Some data) = map (\<lambda>(k, v). (k, migrate v)) data"
    using load_state_distinct by blast
  have d: "map_of (load_state (Some data)) k = Some (VDict [(''thread_ts'', s)])
        \<and> get_thread_ts k (Some data) = Inr (Some s)"
    if h: "distinct (map fst data)" "map_of data k = Some (VStr s)"
  proof -
    have "map_of (map (\<lambda>(k, v). (k, migrate v)) data) k = map_option migrate (map_of data k)"
      by (induction data) auto
    then have m: "map_of (load_state (Some data)) k = Some (VDict [(''thread_ts'', s)])"
      using h by (simp add: load_state_distinct migrate_def)
    then show ?thesis by (simp add: get_thread_ts_def get_field_def)
  qed
  show ?thesis using a b c d by blast
qed

theorem legacy_load_same_state_witness:
  "distinct (map fst ex_legacy) \<and> map_of ex_legacy ''c1'' = Some (VStr ''100'')
   \<and> load_state (Some ex_legacy) = ex_current
   \<and> load_state (Some ex_current) = ex_current
   \<and> map_of (load_state (Some ex_legacy)) ''c1'' = Some (VDict [(''thread_ts'', ''100'')])
   \<and> get_thread_ts ''c1'' (Some ex_legacy) = Inr (Some ''100'')"
proof -
  have h: "distinct (map fst ex_legacy) \<and> map_of ex_legacy ''c1'' = Some (VStr ''100'')"
    by code_simp
  have v: "load_state (Some ex_legacy) = ex_current \<and> load_state (Some ex_current) = ex_current"
    by code_simp
  show ?thesis
    using h v legacy_load_same_state[where data = ex_legacy and k = "''c1''" and s = "''100''"
        and pre = "[]" and post = "[]" and links = "[]"]
    by blast
qed

section \<open>The most recent thread\<close>

lemma scan_latest_append:
  "scan_latest (xs @ ys) acc = scan_latest ys (scan_latest xs acc)"
proof (induction xs arbitrary: acc)
  case Nil
  show ?case by simp
next
  case (Cons p xs)
  obtain cid e where p: "p = (cid, e)" by (cases p)
  obtain c t where acc: "acc = (c, t)" by (cases acc)
  show ?case using Cons.IH p acc by simp
qed

lemma scan_latest_keep:
  "\<forall>p \<in> set xs. entry_ts (snd p) \<le> t \<Longrightarrow> scan_latest xs (c, t) = (c, t)"
  by (induction xs) (auto simp: not_less[symmetric])

lemma scan_latest_below:
  "t0 < ts \<Longrightarrow> \<forall>p \<in> set xs. entry_ts (snd p) < ts \<Longrightarrow> snd (scan_latest xs (c0, t0)) < ts"
  by (induction xs arbitrary: c0 t0) auto

lemma scan_latest_first_max:
  "scan_latest xs (c0, t0) = (c, t) \<Longrightarrow>
   (\<forall>p \<in> set xs. entry_ts (snd p) \<le> t)
   \<and> ((c, t) = (c0, t0)
       \<or> (\<exists>pre cid e post. xs = pre @ (cid, e) # post \<and> c = Some cid \<and> entry_ts e = t
             \<and> t0 < t \<and> (\<forall>p \<in> set pre. entry_ts (snd p) < t)))"
proof (induction xs arbitrary: c0 t0)
  case Nil
  then show ?case by simp
next
  case (Cons p xs)
  obtain cid e where p: "p = (cid, e)" by (cases p)
  show ?case
  proof (cases "t0 < entry_ts e")
    case True
    then have s: "scan_latest xs (Some cid, entry_ts e) = (c, t)"
      using Cons.prems p by simp
    from Cons.IH[OF s] have all: "\<forall>q \<in> set xs. entry_ts (snd q) \<le> t"
      and alt: "(c, t) = (Some cid, entry_ts e)
       \<or> (\<exists>pre cid' e' post. xs = pre @ (cid', e') # post \<and> c = Some cid' \<and> entry_ts e' = t
             \<and> entry_ts e < t \<and> (\<forall>q \<in> set pre. entry_ts (snd q) < t))"
      by auto
    from alt show ?thesis
    proof
      assume eq: "(c, t) = (Some cid, entry_ts e)"
      then have "p # xs = [] @ (cid, e) # xs \<and> c = Some cid \<and> entry_ts e = t \<and> t0 < t
                 \<and> (\<forall>q \<in> set []. entry_ts (snd q) < t)"
        using p True by simp
      moreover have "\<forall>q \<in> set (p # xs). entry_ts (snd q) \<le> t"
        using all eq p by auto
      ultimately show ?thesis by blast
    next
      assume "\<exists>pre cid' e' post. xs = pre @ (cid', e') # post \<and> c = Some cid' \<and> entry_ts e' = t
             \<and> entry_ts e < t \<and> (\<forall>q \<in> set pre. entry_ts (snd q) < t)"
      then obtain pre cid' e' post where d: "xs = pre @ (cid', e') # post" "c = Some cid'"
        "entry_ts e' = t" "entry_ts e < t" "\<forall>q \<in> set pre. entry_ts (snd q) < t"
        by blast
      have "p # xs = (p # pre) @ (cid', e') # post \<and> c = Some cid' \<and> entry_ts e' = t \<and> t0 < t
            \<and> (\<forall>q \<in> set (p # pre). entry_ts (snd q) < t)"
        using d p True by auto
      moreover have "\<forall>q \<in> set (p # xs). entry_ts (snd q) \<le> t"
        using all d(4) p by auto
      ultimately show ?thesis by blast
    qed
  next
    case False
    then have s: "scan_latest xs (c0, t0) = (c, t)"
      using Cons.prems p by simp
    from Cons.IH[OF s] have all: "\<forall>q \<in> set xs. entry_ts (snd q) \<le> t"
      and alt: "(c, t) = (c0, t0)
       \<or> (\<exists>pre cid' e' post. xs = pre @ (cid', e') # post \<and> c = Some cid' \<and> entry_ts e' = t
             \<and> t0 < t \<and> (\<forall>q \<in> set pre. entry_ts (snd q) < t))"
      by auto
    have le: "entry_ts e \<le> t0" using False by simp
    from alt show ?thesis
    proof
      assume eq: "(c, t) = (c0, t0)"
      then have "\<forall>q \<in> set (p # xs). entry_ts (snd q) \<le> t"
        using all le p by auto
      then show ?thesis using eq by blast
    next
      assume "\<exists>pre cid' e' post. xs = pre @ (cid', e') # post \<and> c = Some cid' \<and> entry_ts e' = t
             \<and> t0 < t \<and> (\<forall>q \<in> set pre. entry_ts (snd q) < t)"
      then obtain pre cid' e' post where d: "xs = pre @ (cid', e') # post" "c = Some cid'"
        "entry_ts e' = t" "t0 < t" "\<forall>q \<in> set pre. entry_ts (snd q) < t"
        by blast
      have lt: "entry_ts e < t" using le d(4) by simp
      have "p # xs = (p # pre) @ (cid', e') # post \<and> c = Some cid' \<and> entry_ts e' = t \<and> t0 < t
            \<and> (\<forall>q \<in> set (p # pre). entry_ts (snd q) < t)"
        using d p lt by auto
      moreover have "\<forall>q \<in> set (p # xs). entry_ts (snd q) \<le> t"
        using all lt p by auto
      ultimately show ?thesis by blast
    qed
  qed
qed

text \<open>
  Claim C9, as stated, fails on ties: the scan replaces its candidate only on a strictly
  greater \<open>thread_ts\<close>, so of two links with the same greatest \<open>thread_ts\<close> the one met first
  wins, not the one met later.
\<close>

theorem most_recent_tie_counterexample:
  "load_state (Some ex_tie) = ex_tie
   \<and> map (\<lambda>p. (fst p, entry_ts (snd p))) ex_tie
       = [(''c0'', ''050''), (''c1'', ''100''), (''c2'', ''100'')]
   \<and> ''050'' < ''100''
   \<and> get_most_recent_thread (Some ex_tie) = Some (''c1'', ''100'')
   \<and> get_most_recent_thread (Some ex_tie) \<noteq> Some (''c2'', ''100'')"
  by code_simp

text \<open>
  Claim C9, amended. \<open>get_most_recent_thread\<close> returns the conversation of the first link, in
  the order of the loaded state, whose \<open>thread_ts\<close> is the greatest, provided that
  \<open>thread_ts\<close> is above \<open>"0"\<close> and the conversation id is not empty; and whatever it returns
  is such a link: every \<open>thread_ts\<close> of the state is at most the one returned and every link
  before the returned one has a strictly smaller \<open>thread_ts\<close>.
\<close>

theorem most_recent_first_maximal:
  "(load_state doc = pre @ (cid, e) # post \<and> entry_ts e = ts \<and> ''0'' < ts \<and> cid \<noteq> []
      \<and> (\<forall>p \<in> set pre. entry_ts (snd p) < ts) \<and> (\<forall>p \<in> set post. entry_ts (snd p) \<le> ts)
    \<longrightarrow> get_most_recent_thread doc = Some (cid, ts))
   \<and> (get_most_recent_thread doc = Some (cid, ts) \<longrightarrow>
        cid \<noteq> [] \<and> ''0'' < ts \<and> (\<forall>p \<in> set (load_state doc). entry_ts (snd p) \<le> ts)
        \<and> (\<exists>pre e post. load_state doc = pre @ (cid, e) # post \<and> entry_ts e = ts
              \<and> (\<forall>p \<in> set pre. entry_ts (snd p) < ts)))"
proof (rule conjI; rule impI)
  assume h: "load_state doc = pre @ (cid, e) # post \<and> entry_ts e = ts \<and> ''0'' < ts \<and> cid \<noteq> []
      \<and> (\<forall>p \<in> set pre. entry_ts (snd p) < ts) \<and> (\<forall>p \<in> set post. entry_ts (snd p) \<le> ts)"
  obtain c' t' where first: "scan_latest pre (None, ''0'') = (c', t')"
    by (cases "scan_latest pre (None, ''0'')")
  have "t' < ts" using scan_latest_below[of "''0''" ts pre None] h first by simp
  then have "scan_latest [(cid, e)] (c', t') = (Some cid, ts)" using h by simp
  moreover have "scan_latest post (Some cid, ts) = (Some cid, ts)"
    using scan_latest_keep h by blast
  ultimately have "scan_latest (pre @ [(cid, e)] @ post) (None, ''0'') = (Some cid, ts)"
    using first by (simp only: scan_latest_append)
  then have "scan_latest (load_state doc) (None, ''0'') = (Some cid, ts)"
    using h by simp
  moreover have "load_state doc \<noteq> []" using h by simp
  ultimately show "get_most_recent_thread doc = Some (cid, ts)"
    using h by (simp add: get_most_recent_thread_def truthy_def get_or_def)
next
  assume g: "get_most_recent_thread doc = Some (cid, ts)"
  obtain lc lt where s: "scan_latest (load_state doc) (None, ''0'') = (lc, lt)"
    by (cases "scan_latest (load_state doc) (None, ''0'')")
  have r: "truthy lc \<and> cid = get_or lc [] \<and> ts = lt"
    using g s by (auto simp: get_most_recent_thread_def Let_def split: if_splits)
  then have lc: "lc = Some cid" "cid \<noteq> []"
    by (cases lc; simp add: truthy_def get_or_def)+
  from scan_latest_first_max[OF s]
  have all: "\<forall>p \<in> set (load_state doc). entry_ts (snd p) \<le> lt"
    and alt: "(lc, lt) = (None, ''0'')
       \<or> (\<exists>pre cid' e post. load_state doc = pre @ (cid', e) # post \<and> lc = Some cid'
             \<and> entry_ts e = lt \<and> ''0'' < lt \<and> (\<forall>p \<in> set pre. entry_ts (snd p) < lt))"
    by auto
  from alt lc obtain pre e post where d: "load_state doc = pre @ (cid, e) # post"
    "entry_ts e = lt" "''0'' < lt" "\<forall>p \<in> set pre. entry_ts (snd p) < lt"
    by auto
  show "cid \<noteq> [] \<and> ''0'' < ts \<and> (\<forall>p \<in> set (load_state doc). entry_ts (snd p) \<le> ts)
        \<and> (\<exists>pre e post. load_state doc = pre @ (cid, e) # post \<and> entry_ts e = ts
              \<and> (\<forall>p \<in> set pre. entry_ts (snd p) < ts))"
    using lc(2) all d r by blast
qed

theorem most_recent_first_maximal_witness:
  "load_state (Some ex_tie) = [(''c0'', VDict [(''thread_ts'', ''050'')])]
        @ (''c1'', VDict [(''thread_ts'', ''100'')]) # [(''c2'', VDict [(''thread_ts'', ''100'')])]
   \<and> entry_ts (VDict [(''thread_ts'', ''100'')]) = ''100'' \<and> ''0'' < ''100'' \<and> ''c1'' \<noteq> []
   \<and> entry_ts (snd (''c0'', VDict [(''thread_ts'', ''050'')])) < ''100''
   \<and> entry_ts (snd (''c2'', VDict [(''thread_ts'', ''100'')])) \<le> ''100''
   \<and> get_most_recent_thread (Some ex_tie) = Some (''c1'', ''100'')"
proof -
  have h: "load_state (Some ex_tie) = [(''c0'', VDict [(''thread_ts'', ''050'')])]
        @ (''c1'', VDict [(''thread_ts'', ''100'')]) # [(''c2'', VDict [(''thread_ts'', ''100'')])]
   \<and> entry_ts (VDict [(''thread_ts'', ''100'')]) = ''100'' \<and> ''0'' < ''100'' \<and> ''c1'' \<noteq> []
   \<and> entry_ts (snd (''c0'', VDict [(''thread_ts'', ''050'')])) < ''100''
   \<and> entry_ts (snd (''c2'', VDict [(''thread_ts'', ''100'')])) \<le> ''100''"
    by code_simp
  then have "get_most_recent_thread (Some ex_tie) = Some (''c1'', ''100'')"
    using most_recent_first_maximal[where doc = "Some ex_tie"
        and pre = "[(''c0'', VDict [(''thread_ts'', ''050'')])]" and cid = "''c1''"
        and e = "VDict [(''thread_ts'', ''100'')]"
        and post = "[(''c2'', VDict [(''thread_ts'', ''100'')])]" and ts = "''100''"]
    by simp
  then show ?thesis using h by blast
qed

section \<open>Retention of the newest 100 links\<close>

lemma foldl_delete:
  "foldl (\<lambda>st k. AList.delete k st) al ks = filter (\<lambda>p. fst p \<notin> set ks) al"
proof (induction ks arbitrary: al)
  case Nil
  show ?case by simp
next
  case (Cons k ks)
  have "filter (\<lambda>p. fst p \<notin> set ks) (AList.delete k al)
        = filter (\<lambda>p. fst p \<notin> set (k # ks)) al"
    by (induction al) (auto simp: AList.delete_eq)
  then show ?case using Cons.IH[of "AList.delete k al"] by simp
qed

lemma decorate_dicts:
  assumes "distinct (map fst st)" and "\<forall>p \<in> set st. is_dict (snd p)"
  shows "set xs \<subseteq> set st \<Longrightarrow>
         decorate (retention_key st) (map fst xs) = Inr (map (\<lambda>p. (ts_key (snd p), fst p)) xs)"
proof (induction xs)
  case Nil
  show ?case by simp
next
  case (Cons p xs)
  have p: "p \<in> set st" using Cons.prems by simp
  then have "map_of st (fst p) = Some (snd p)"
    using assms(1) by (metis map_of_eq_Some_iff prod.collapse)
  moreover have "is_dict (snd p)" using assms(2) p by blast
  ultimately have "retention_key st (fst p) = Inr (ts_key (snd p))"
    by (cases "snd p") (simp_all add: retention_key_def ts_key_def is_dict_def)
  then show ?case using Cons by simp
qed

lemma distinct_fst_unique:
  "distinct (map fst al) \<Longrightarrow> p \<in> set al \<Longrightarrow> q \<in> set al \<Longrightarrow> fst p = fst q \<Longrightarrow> p = q"
  by (simp add: distinct_map inj_on_def)

lemma filter_taken_keys:
  "distinct (map fst al) \<Longrightarrow>
   filter (\<lambda>p. fst p \<notin> set (take n (map fst al))) al = drop n al"
proof -
  assume d: "distinct (map fst al)"
  have split: "al = take n al @ drop n al" by simp
  have "distinct (map fst (take n al) @ map fst (drop n al))"
    using d by (metis append_take_drop_id map_append)
  then have disj: "fst ` set (take n al) \<inter> fst ` set (drop n al) = {}" by simp
  have a: "filter (\<lambda>p. fst p \<notin> set (take n (map fst al))) (take n al) = []"
    by (auto simp: filter_empty_conv take_map)
  have b: "filter (\<lambda>p. fst p \<notin> set (take n (map fst al))) (drop n al) = drop n al"
    using disj by (auto simp: filter_id_conv take_map)
  have "filter (\<lambda>p. fst p \<notin> set (take n (map fst al))) (take n al @ drop n al) = drop n al"
    using a b by (simp only: filter_append) simp
  then show ?thesis by simp
qed

text \<open>
  What \<open>_save_state\<close> evicts from a state of more than 100 entries whose entries are all
  objects: exactly 100 entries remain, in their order, and every evicted entry has a key at
  most that of every entry kept.
\<close>

lemma save_state_evicts:
  assumes dist: "distinct (map fst st)" and dicts: "\<forall>p \<in> set st. is_dict (snd p)"
    and big: "length st > 100"
  shows "\<exists>st'. save_state st = Inr st' \<and> length st' = 100 \<and> subseq st' st
           \<and> (\<forall>p \<in> set st. p \<notin> set st' \<longrightarrow> (\<forall>q \<in> set st'. ts_key (snd p) \<le> ts_key (snd q)))"
proof -
  define f :: "string \<times> val \<Rightarrow> string \<times> string" where "f = (\<lambda>p. (ts_key (snd p), fst p))"
  define D where "D = sort_key fst (map f st)"
  define n where "n = length st - 100"
  define DK where "DK = take n D"
  define DR where "DR = drop n D"
  define K where "K = map snd DK"
  define R where "R = map snd DR"
  define st' where "st' = filter (\<lambda>p. fst p \<notin> set K) st"
  have D_split: "D = DK @ DR" by (simp add: DK_def DR_def)
  have keys_split: "map snd D = K @ R" by (simp add: K_def R_def D_split)
  have K_take: "K = take n (map snd D)" by (simp add: K_def DK_def take_map)
  have dec: "decorate (retention_key st) (map fst st) = Inr (map f st)"
    using decorate_dicts[OF dist dicts, of st] by (simp add: f_def)
  have saved: "save_state st = Inr st'"
    using big dec by (simp add: save_state_def sorted_by_def foldl_delete st'_def K_take D_def n_def)
  have snd_f: "map snd (map f st) = map fst st" by (simp add: f_def comp_def)
  have "mset (map snd D) = mset (map snd (map f st))"
    by (simp only: D_def mset_map mset_sort)
  then have ms: "mset (K @ R) = mset (map fst st)"
    by (simp only: keys_split snd_f)
  have "distinct (K @ R)" using dist ms by (metis mset_eq_imp_distinct_iff)
  then have disj: "set K \<inter> set R = {}" by (simp only: distinct_append)
  have fK: "filter (\<lambda>k. k \<notin> set K) K = []" by (simp add: filter_empty_conv)
  have fR: "filter (\<lambda>k. k \<notin> set K) R = R" using disj by (auto simp: filter_id_conv)
  have "map fst st' = filter (\<lambda>k. k \<notin> set K) (map fst st)"
    by (simp add: st'_def filter_map comp_def)
  then have "mset (map fst st') = filter_mset (\<lambda>k. k \<notin> set K) (mset (map fst st))"
    by (simp only: mset_filter)
  also have "\<dots> = filter_mset (\<lambda>k. k \<notin> set K) (mset (K @ R))"
    by (simp only: ms)
  also have "\<dots> = mset (filter (\<lambda>k. k \<notin> set K) (K @ R))"
    by (simp only: mset_filter)
  also have "\<dots> = mset R"
    by (simp only: filter_append fK fR append_Nil)
  finally have mR: "mset (map fst st') = mset R" .
  then have "length (map fst st') = length R" by (metis size_mset)
  moreover have "length R = 100" using big by (simp add: R_def DR_def D_def n_def)
  ultimately have l100: "length st' = 100" by simp
  have sortedD: "sorted (map fst (DK @ DR))"
    unfolding D_split[symmetric] D_def by (rule sorted_sort_key)
  have order: "ts_key (snd p) \<le> ts_key (snd q)"
    if p: "p \<in> set st" "p \<notin> set st'" and q: "q \<in> set st'" for p q
  proof -
    have qs: "q \<in> set st" using q by (simp add: st'_def)
    have pk: "fst p \<in> set K" using p by (simp add: st'_def)
    have "fst q \<in> set (map fst st')" using q by simp
    then have qr: "fst q \<in> set R" using mR by (metis mset_eq_setD)
    from pk obtain x where x: "x \<in> set DK" "snd x = fst p"
      unfolding K_def by auto
    from qr obtain y where y: "y \<in> set DR" "snd y = fst q"
      unfolding R_def by auto
    from sorted_map_appendD[OF sortedD x(1) y(1)] have le: "fst x \<le> fst y" .
    have "x \<in> set D" using x(1) by (simp add: D_split)
    then have "x \<in> set (map f st)" by (simp add: D_def)
    then obtain p' where p': "p' \<in> set st" "x = f p'" by auto
    have "y \<in> set D" using y(1) by (simp add: D_split)
    then have "y \<in> set (map f st)" by (simp add: D_def)
    then obtain q' where q': "q' \<in> set st" "y = f q'" by auto
    have "p' = p" using distinct_fst_unique[OF dist p'(1) p(1)] p'(2) x(2) by (simp add: f_def)
    moreover have "q' = q"
      using distinct_fst_unique[OF dist q'(1) qs] q'(2) y(2) by (simp add: f_def)
    ultimately show ?thesis using le p'(2) q'(2) by (simp add: f_def)
  qed
  have sub: "subseq st' st" by (simp add: st'_def)
  show ?thesis using saved l100 sub order by blast
qed


lemma set_update_subset: "set (AList.update k v al) \<subseteq> insert (k, v) (set al)"
  by (induction al) auto

lemma is_dict_migrate: "is_dict (migrate v)"
  by (cases v) (simp_all add: migrate_def is_dict_def)

lemma fold_update_inv:
  "distinct (map fst acc) \<and> (\<forall>p \<in> set acc. is_dict (snd p)) \<Longrightarrow>
   distinct (map fst (foldl (\<lambda>migrated (k, v). AList.update k (migrate v) migrated) acc data))
   \<and> (\<forall>p \<in> set (foldl (\<lambda>migrated (k, v). AList.update k (migrate v) migrated) acc data).
         is_dict (snd p))"
proof (induction data arbitrary: acc)
  case Nil
  then show ?case by simp
next
  case (Cons x data)
  obtain k v where x: "x = (k, v)" by (cases x)
  have "distinct (map fst (AList.update k (migrate v) acc))"
    using Cons.prems by (simp add: distinct_update)
  moreover have "\<forall>p \<in> set (AList.update k (migrate v) acc). is_dict (snd p)"
    using Cons.prems set_update_subset[of k "migrate v" acc] is_dict_migrate by auto
  ultimately show ?case using Cons.IH[of "AList.update k (migrate v) acc"] x by simp
qed

lemma load_state_inv:
  "distinct (map fst (load_state doc)) \<and> (\<forall>p \<in> set (load_state doc). is_dict (snd p))"
proof (cases doc)
  case None
  then show ?thesis by (simp add: load_state_def)
next
  case (Some data)
  then show ?thesis using fold_update_inv[of "[]" data] by (simp add: load_state_def)
qed

lemma put_field_inv:
  "\<exists>st. put_field field c x doc = Inr st \<and> distinct (map fst st)
        \<and> (\<forall>p \<in> set st. is_dict (snd p))"
proof -
  define s0 where "s0 = load_state doc"
  define s1 where "s1 = (if map_of s0 c = None then AList.update c (VDict []) s0 else s0)"
  have inv0: "distinct (map fst s0)" "\<forall>p \<in> set s0. is_dict (snd p)"
    using load_state_inv[of doc] by (simp_all add: s0_def)
  have inv1: "distinct (map fst s1)" "\<forall>p \<in> set s1. is_dict (snd p)"
    using inv0 set_update_subset[of c "VDict []" s0]
    by (auto simp: s1_def distinct_update is_dict_def)
  have "\<exists>d. map_of s1 c = Some (VDict d)"
  proof (cases "map_of s0 c")
    case None
    then show ?thesis by (simp add: s1_def update_conv')
  next
    case (Some v)
    then have "(c, v) \<in> set s0" by (rule map_of_SomeD)
    then have "is_dict v" using inv0(2) by force
    then show ?thesis using Some by (cases v) (simp_all add: s1_def is_dict_def)
  qed
  then obtain d where d: "map_of s1 c = Some (VDict d)" by blast
  let ?st = "AList.update c (VDict (AList.update field x d)) s1"
  have "put_field field c x doc = Inr ?st"
    using d by (simp add: put_field_def Let_def s0_def[symmetric] s1_def[symmetric])
  moreover have "distinct (map fst ?st)" using inv1(1) by (simp add: distinct_update)
  moreover have "\<forall>p \<in> set ?st. is_dict (snd p)"
    using inv1(2) set_update_subset[of c "VDict (AList.update field x d)" s1]
    by (auto simp: is_dict_def)
  ultimately show ?thesis by blast
qed

lemma save_state_small: "length st \<le> 100 \<Longrightarrow> save_state st = Inr st"
  by (simp add: save_state_def)

lemma link_props:
  "map fst (map link ps) = map fst ps"
  "map (\<lambda>p. (ts_key (snd p), fst p)) (map link ps) = map (\<lambda>q. (snd q, fst q)) ps"
  "\<forall>p \<in> set (map link ps). is_dict (snd p)"
  "map (\<lambda>(k, v). (k, migrate v)) (map link ps) = map link ps"
  by (simp_all add: link_def ts_key_def is_dict_def get_or_def migrate_def comp_def)

lemma save_state_links:
  assumes dist: "distinct (map fst ps)" and srt: "sorted_wrt (<) (map snd ps)"
  shows "save_state (map link ps) = Inr (map link (drop (length ps - 100) ps))"
proof (cases "length ps \<le> 100")
  case True
  then show ?thesis by (simp add: save_state_small)
next
  case False
  let ?st = "map link ps"
  have d: "distinct (map fst ?st)" using dist by (simp only: link_props(1))
  have dec: "decorate (retention_key ?st) (map fst ?st) = Inr (map (\<lambda>q. (snd q, fst q)) ps)"
    using decorate_dicts[OF d link_props(3), of ?st] by (simp only: link_props(2))
  have "sorted (map fst (map (\<lambda>q. (snd q, fst q)) ps))"
    using strict_sorted_imp_sorted[OF srt] by (simp add: comp_def)
  then have id: "sort_key fst (map (\<lambda>q. (snd q, fst q)) ps) = map (\<lambda>q. (snd q, fst q)) ps"
    by (rule sort_key_id_if_sorted)
  have keys: "map snd (map (\<lambda>q. (snd q, fst q)) ps) = map fst ?st"
    by (simp add: comp_def link_def)
  have "save_state ?st
        = Inr (filter (\<lambda>p. fst p \<notin> set (take (length ps - 100) (map fst ?st))) ?st)"
    using False dec by (simp add: save_state_def sorted_by_def id foldl_delete comp_def link_def)
  also have "\<dots> = Inr (drop (length ps - 100) ?st)"
    using filter_taken_keys[OF d] by simp
  finally show ?thesis by (simp add: drop_map)
qed

lemma put_field_links:
  assumes dist: "distinct (map fst qs)" and fresh: "c \<notin> fst ` set qs"
  shows "put_field ''thread_ts'' c t (Some (map link qs)) = Inr (map link (qs @ [(c, t)]))"
proof -
  have d: "distinct (map fst (map link qs))" using dist by (simp only: link_props(1))
  have ld: "load_state (Some (map link qs)) = map link qs"
    using load_state_distinct[OF d] by (simp only: link_props(4))
  have fr: "c \<notin> fst ` set (map link qs)" using fresh by (simp add: link_def image_image)
  then have none: "map_of (map link qs) c = None" by (simp add: map_of_eq_None_iff)
  have up: "AList.update c (VDict []) (map link qs) = map link qs @ [(c, VDict [])]"
    using fr by (rule update_fresh)
  have m: "map_of (map link qs @ [(c, VDict [])]) c = Some (VDict [])"
    using none by (simp add: map_add_def)
  have up2: "AList.update c (VDict [(''thread_ts'', t)]) (map link qs @ [(c, VDict [])])
             = map link qs @ [(c, VDict [(''thread_ts'', t)])]"
    using fr by (induction qs) (auto simp: link_def)
  show ?thesis
    using none m by (simp add: put_field_def Let_def ld up up2 link_def)
qed

lemma save_thread_ts_links:
  assumes "distinct (map fst (qs @ [(c, t)]))" and "sorted_wrt (<) (map snd (qs @ [(c, t)]))"
  shows "save_thread_ts c t (Some (map link qs))
         = Inr (map link (drop (length qs + 1 - 100) (qs @ [(c, t)])))"
proof -
  have "distinct (map fst qs)" "c \<notin> fst ` set qs" using assms(1) by auto
  from put_field_links[OF this]
  have "save_thread_ts c t (Some (map link qs)) = save_state (map link (qs @ [(c, t)]))"
    by (simp add: save_thread_ts_def set_field_def)
  then show ?thesis using save_state_links[OF assms] by simp
qed

lemma store_links_links:
  "distinct (map fst (qs @ ps)) \<Longrightarrow> sorted_wrt (<) (map snd (qs @ ps)) \<Longrightarrow> length qs \<le> 100 \<Longrightarrow>
   store_links ps (Some (map link qs))
   = Inr (Some (map link (drop (length (qs @ ps) - 100) (qs @ ps))))"
proof (induction ps arbitrary: qs)
  case Nil
  then show ?case by simp
next
  case (Cons p ps)
  obtain c t where p: "p = (c, t)" by (cases p)
  let ?a = "length qs + 1 - 100"
  let ?qs' = "drop ?a (qs @ [p])"
  have d1: "distinct (map fst (qs @ [(c, t)]))" using Cons.prems(1) p by simp
  have s1: "sorted_wrt (<) (map snd (qs @ [(c, t)]))"
    using Cons.prems(2) p by (simp add: sorted_wrt_append)
  have step: "save_thread_ts c t (Some (map link qs)) = Inr (map link ?qs')"
    using save_thread_ts_links[OF d1 s1] p by simp
  have app: "?qs' @ ps = drop ?a (qs @ p # ps)" by simp
  have d2: "distinct (map fst (?qs' @ ps))"
    unfolding app using Cons.prems(1) by (simp only: drop_map[symmetric] distinct_drop)
  have s2: "sorted_wrt (<) (map snd (?qs' @ ps))"
    unfolding app using Cons.prems(2) by (simp only: drop_map[symmetric] sorted_wrt_drop)
  have l2: "length ?qs' \<le> 100" using Cons.prems(3) by simp
  have "drop (length (?qs' @ ps) - 100) (?qs' @ ps)
        = drop (length (qs @ p # ps) - 100) (qs @ p # ps)"
  proof -
    have "?a + (length (?qs' @ ps) - 100) = length (qs @ p # ps) - 100"
      using Cons.prems(3) by simp
    then show ?thesis unfolding app by (simp only: drop_drop add.commute)
  qed
  then show ?case
    using Cons.IH[OF d2 s2 l2] step p by simp
qed

lemma store_links_None:
  "ps \<noteq> [] \<Longrightarrow> store_links ps None = store_links ps (Some [])"
  by (cases ps)
     (auto simp: save_thread_ts_def set_field_def put_field_def load_state_def split: prod.splits)

text \<open>
  Claim C5. Storing links with distinct conversation ids and strictly increasing thread
  roots, one \<open>save_thread_ts\<close> call after the other starting from no document, leaves the
  last 100 of them (all of them when there are fewer), in order; for 150 links these are
  exactly 100 links, the ones with the 100 largest thread roots. More generally every write
  (\<open>save_thread_ts\<close> and \<open>save_transcript_file_id\<close> are both \<open>set_field\<close>) succeeds on
  every document; when the state it builds has at most 100 links it is written as it is, and
  when it has more, exactly 100 links are written, they are links of that state in their
  order, and every evicted link has a thread root at or below that of every link kept.
\<close>

theorem retention_keeps_newest_100:
  "(distinct (map fst links) \<and> sorted_wrt (<) (map snd links) \<and> links \<noteq> [] \<longrightarrow>
      store_links links None = Inr (Some (map link (drop (length links - 100) links))))
   \<and> (distinct (map fst links) \<and> sorted_wrt (<) (map snd links) \<and> length links = 150 \<longrightarrow>
      store_links links None = Inr (Some (map link (drop 50 links)))
      \<and> length (map link (drop 50 links)) = 100)
   \<and> (\<exists>st. put_field field c x doc = Inr st)
   \<and> (put_field field c x doc = Inr st \<and> length st \<le> 100 \<longrightarrow>
        set_field field c x doc = Inr st)
   \<and> (put_field field c x doc = Inr st \<and> length st > 100 \<longrightarrow>
        (\<exists>st'. set_field field c x doc = Inr st' \<and> length st' = 100 \<and> subseq st' st
           \<and> (\<forall>p \<in> set st. p \<notin> set st' \<longrightarrow>
                 (\<forall>q \<in> set st'. ts_key (snd p) \<le> ts_key (snd q)))))"
proof -
  have gen: "store_links links None = Inr (Some (map link (drop (length links - 100) links)))"
    if "distinct (map fst links)" "sorted_wrt (<) (map snd links)" "links \<noteq> []"
    using store_links_links[of "[]" links] store_links_None[OF that(3)] that by simp
  have a: "distinct (map fst links) \<and> sorted_wrt (<) (map snd links) \<and> links \<noteq> [] \<longrightarrow>
      store_links links None = Inr (Some (map link (drop (length links - 100) links)))"
    using gen by blast
  have b: "distinct (map fst links) \<and> sorted_wrt (<) (map snd links) \<and> length links = 150 \<longrightarrow>
      store_links links None = Inr (Some (map link (drop 50 links)))
      \<and> length (map link (drop 50 links)) = 100"
  proof (intro impI, elim conjE)
    assume h: "distinct (map fst links)" "sorted_wrt (<) (map snd links)" "length links = 150"
    then have "links \<noteq> []" by auto
    from gen[OF h(1) h(2) this] h(3)
    show "store_links links None = Inr (Some (map link (drop 50 links)))
      \<and> length (map link (drop 50 links)) = 100" by simp
  qed
  have c: "\<exists>st. put_field field c x doc = Inr st"
    using put_field_inv[of field c x doc] by blast
  have d: "put_field field c x doc = Inr st \<and> length st \<le> 100 \<longrightarrow>
        set_field field c x doc = Inr st"
    by (simp add: set_field_def save_state_small)
  have e: "put_field field c x doc = Inr st \<and> length st > 100 \<longrightarrow>
        (\<exists>st'. set_field field c x doc = Inr st' \<and> length st' = 100 \<and> subseq st' st
           \<and> (\<forall>p \<in> set st. p \<notin> set st' \<longrightarrow>
                 (\<forall>q \<in> set st'. ts_key (snd p) \<le> ts_key (snd q))))"
  proof (intro impI, elim conjE)
    assume h: "put_field field c x doc = Inr st" "length st > 100"
    from put_field_inv[of field c x doc] h(1)
    have inv: "distinct (map fst st)" "\<forall>p \<in> set st. is_dict (snd p)" by auto
    from save_state_evicts[OF inv h(2)] h(1)
    show "\<exists>st'. set_field field c x doc = Inr st' \<and> length st' = 100 \<and> subseq st' st
           \<and> (\<forall>p \<in> set st. p \<notin> set st' \<longrightarrow>
                 (\<forall>q \<in> set st'. ts_key (snd p) \<le> ts_key (snd q)))"
      by (simp add: set_field_def)
  qed
  show ?thesis using a b c d e by blast
qed

theorem retention_keeps_newest_100_witness:
  "distinct (map fst ex_links) \<and> sorted_wrt (<) (map snd ex_links) \<and> ex_links \<noteq> []
   \<and> length ex_links = 150
   \<and> store_links ex_links None = Inr (Some (map link (drop (length ex_links - 100) ex_links)))
   \<and> store_links ex_links None = Inr (Some (map link (drop 50 ex_links)))
   \<and> length (map link (drop 50 ex_links)) = 100
   \<and> put_field ''thread_ts'' ''c000'' ''100'' None = Inr [link (''c000'', ''100'')]
   \<and> length [link (''c000'', ''100'')] \<le> 100
   \<and> set_field ''thread_ts'' ''c000'' ''100'' None = Inr [link (''c000'', ''100'')]
   \<and> put_field ''file_id'' ''c000'' ''F1'' (Some (map link (take 101 ex_links))) = Inr ex_full
   \<and> length ex_full > 100
   \<and> (\<exists>st'. set_field ''file_id'' ''c000'' ''F1'' (Some (map link (take 101 ex_links))) = Inr st'
         \<and> length st' = 100 \<and> subseq st' ex_full)"
proof -
  have h1: "distinct (map fst ex_links)" by code_simp
  have "successively (<) (map snd ex_links)" by code_simp
  then have h2: "sorted_wrt (<) (map snd ex_links)"
    by (simp only: successively_conv_sorted_wrt[OF transp_on_less])
  have h3: "length ex_links = 150" by (simp add: ex_links_def)
  then have h4: "ex_links \<noteq> []" by auto
  have s1: "put_field ''thread_ts'' ''c000'' ''100'' None = Inr [link (''c000'', ''100'')]"
    by code_simp
  have s2: "length [link (''c000'', ''100'')] \<le> 100" by simp
  have g1: "put_field ''file_id'' ''c000'' ''F1'' (Some (map link (take 101 ex_links)))
            = Inr ex_full" by code_simp
  have g2: "length ex_full > 100" by (simp add: ex_full_def ex_links_def)
  have links: "store_links ex_links None
        = Inr (Some (map link (drop (length ex_links - 100) ex_links)))
      \<and> store_links ex_links None = Inr (Some (map link (drop 50 ex_links)))
      \<and> length (map link (drop 50 ex_links)) = 100"
    using h1 h2 h3 h4 retention_keeps_newest_100[where links = ex_links] by blast
  have small: "set_field ''thread_ts'' ''c000'' ''100'' None = Inr [link (''c000'', ''100'')]"
    using s1 s2
      retention_keeps_newest_100[where field = "''thread_ts''" and c = "''c000''"
        and x = "''100''" and doc = None and st = "[link (''c000'', ''100'')]"]
    by blast
  have evict: "\<exists>st'. set_field ''file_id'' ''c000'' ''F1'' (Some (map link (take 101 ex_links)))
                  = Inr st' \<and> length st' = 100 \<and> subseq st' ex_full"
    using g1 g2
      retention_keeps_newest_100[where field = "''file_id''" and c = "''c000''"
        and x = "''F1''" and doc = "Some (map link (take 101 ex_links))" and st = ex_full]
    by blast
  show ?thesis using h1 h2 h3 h4 s1 s2 g1 g2 links small evict by blast
qed

end
